theory Spec2Isabelle
  imports Main
begin

section \<open>JSON documents\<close>

text \<open>
  The scripts work on what \<^verbatim>\<open>json.load\<close> returns: \<^verbatim>\<open>None\<close>, booleans, numbers,
  strings, lists and dicts. A dict is kept as the list of its items in insertion order;
  a key is looked up with \<open>map_of\<close>. Numbers are integers here: the scripts only ever
  test a number for truthiness. Every result below holds for all item lists, those with
  a repeated key included, which \<^verbatim>\<open>json.load\<close> never returns.
\<close>

datatype json =
    JNull
  | JBool bool
  | JNum int
  | JStr string
  | JArr "json list"
  | JObj "(string \<times> json) list"

text \<open>\<^verbatim>\<open>key in d\<close> and \<^verbatim>\<open>d.get(key, default)\<close> on a dict.\<close>

definition has_key :: "string \<Rightarrow> (string \<times> json) list \<Rightarrow> bool" where
  "has_key k kvs = (map_of kvs k \<noteq> None)"

definition dict_get :: "(string \<times> json) list \<Rightarrow> string \<Rightarrow> json \<Rightarrow> json" where
  "dict_get kvs k dflt = (case map_of kvs k of Some v \<Rightarrow> v | None \<Rightarrow> dflt)"

text \<open>Python truthiness, as used by \<^verbatim>\<open>if submodules:\<close> and \<^verbatim>\<open>bool(...)\<close>.\<close>

fun truthy :: "json \<Rightarrow> bool" where
  "truthy JNull = False"
| "truthy (JBool b) = b"
| "truthy (JNum n) = (n \<noteq> 0)"
| "truthy (JStr s) = (s \<noteq> [])"
| "truthy (JArr xs) = (xs \<noteq> [])"
| "truthy (JObj kvs) = (kvs \<noteq> [])"

text \<open>\<^verbatim>\<open>isinstance(x, dict)\<close>.\<close>

fun is_dict :: "json \<Rightarrow> bool" where
  "is_dict (JObj kvs) = True"
| "is_dict _ = False"

text \<open>\<^verbatim>\<open>isinstance(x, str)\<close>.\<close>

fun is_str :: "json \<Rightarrow> bool" where
  "is_str (JStr s) = True"
| "is_str _ = False"

text \<open>
  The extractors are annotated \<^verbatim>\<open>parent_name: str\<close>, \<^verbatim>\<open>visited: Set[str]\<close>: module names
  are strings. A \<^verbatim>\<open>name\<close> field holding anything else is outside this embedding (the
  source would format it with \<^verbatim>\<open>str()\<close> and hash it); the model stops there with
  \<open>NameNotStr\<close> and the offending value.
\<close>

datatype error = NameNotStr json

section \<open>extract\_modules.py: the module extractor\<close>

text \<open>The dict appended to \<^verbatim>\<open>modules\<close> for each module.\<close>

record module_info =
  name :: string
  filepath :: json
  docpath :: json
  parent :: "string option"
  full_path :: string
  has_test :: bool
  has_submodules :: bool

text \<open>
  \<^verbatim>\<open>isinstance(data, dict) and all(key in data for key in ['name', 'filepath', 'docpath'])\<close>
\<close>

fun is_module :: "json \<Rightarrow> bool" where
  "is_module (JObj kvs) = (has_key ''name'' kvs \<and> has_key ''filepath'' kvs \<and> has_key ''docpath'' kvs)"
| "is_module _ = False"

text \<open>
  \<^verbatim>\<open>full_name = f"{parent_name}/{module_name}" if parent_name else module_name\<close>;
  the same expression builds \<^verbatim>\<open>full_module_path\<close> in the test-case extractor.
\<close>

definition child_path :: "string \<Rightarrow> string \<Rightarrow> string" where
  "child_path parent_name module_name =
     (if parent_name \<noteq> [] then parent_name @ ''/'' @ module_name else module_name)"

definition make_module_info :: "(string \<times> json) list \<Rightarrow> string \<Rightarrow> string \<Rightarrow> module_info" where
  "make_module_info kvs module_name parent_name =
     \<lparr>name = module_name,
      filepath = dict_get kvs ''filepath'' (JStr []),
      docpath = dict_get kvs ''docpath'' (JStr []),
      parent = (if parent_name \<noteq> [] then Some parent_name else None),
      full_path = child_path parent_name module_name,
      has_test = has_key ''test'' kvs,
      has_submodules = truthy (dict_get kvs ''submodules'' JNull)\<rparr>"

lemma size_map_of:
  "map_of kvs k = Some v \<Longrightarrow> size v < Suc (size_list (size_prod (\<lambda>_. 0) size) kvs)"
  by (induction kvs) (auto split: if_splits)

text \<open>
  \<open>extract_modules\<close> returns the list it built together with the \<^verbatim>\<open>visited\<close> set, which
  the source shares between all recursive calls and mutates in place.
  \<open>extract_modules_each\<close> is the loop \<^verbatim>\<open>for submodule in submodules\<close>. The call of
  \<^verbatim>\<open>main\<close>, \<^verbatim>\<open>extract_modules(data)\<close>, is \<open>extract_modules data [] {}\<close>.
\<close>

function (sequential)
  extract_modules :: "json \<Rightarrow> string \<Rightarrow> string set \<Rightarrow> error + module_info list \<times> string set"
  and extract_modules_each ::
    "json list \<Rightarrow> string \<Rightarrow> string set \<Rightarrow> error + module_info list \<times> string set"
where
  "extract_modules (JObj kvs) parent_name visited =
     (if is_module (JObj kvs) then
        (case map_of kvs ''name'' of
           Some (JStr module_name) \<Rightarrow>
             (let full_name = child_path parent_name module_name in
              if full_name \<notin> visited then
                (let visited1 = insert full_name visited;
                     module_info = make_module_info kvs module_name parent_name
                 in case map_of kvs ''submodules'' of
                      Some (JArr subs) \<Rightarrow>
                        (case extract_modules_each subs full_name visited1 of
                           Inl e \<Rightarrow> Inl e
                         | Inr (ms, visited2) \<Rightarrow> Inr (module_info # ms, visited2))
                    | Some (JObj sub) \<Rightarrow>
                        (if sub \<noteq> [] then
                           (case extract_modules (JObj sub) full_name visited1 of
                              Inl e \<Rightarrow> Inl e
                            | Inr (ms, visited2) \<Rightarrow> Inr (module_info # ms, visited2))
                         else Inr ([module_info], visited1))
                    | _ \<Rightarrow> Inr ([module_info], visited1))
              else Inr ([], visited))
         | Some v \<Rightarrow> Inl (NameNotStr v)
         | None \<Rightarrow> Inr ([], visited))
      else Inr ([], visited))"
| "extract_modules _ parent_name visited = Inr ([], visited)"
| "extract_modules_each [] parent_name visited = Inr ([], visited)"
| "extract_modules_each (submodule # rest) parent_name visited =
     (if is_dict submodule then
        (case extract_modules submodule parent_name visited of
           Inl e \<Rightarrow> Inl e
         | Inr (ms, visited1) \<Rightarrow>
             (case extract_modules_each rest parent_name visited1 of
                Inl e \<Rightarrow> Inl e
              | Inr (ms', visited2) \<Rightarrow> Inr (ms @ ms', visited2)))
      else extract_modules_each rest parent_name visited)"
  by pat_completeness auto
termination
  by (relation "measure (case_sum (\<lambda>(d, _, _). 2 * size d)
                                  (\<lambda>(ds, _, _). 2 * size_list size ds + 1))")
     (auto dest: size_map_of)

declare extract_modules.simps [simp del]

section \<open>extract\_testcases.py: the test-case extractor\<close>

text \<open>The dict appended to \<^verbatim>\<open>testcases\<close> for each entry of a module's test-case list.\<close>

record testcase_info =
  module :: string
  module_path :: string
  test_name :: json
  run_cmd :: json
  output_log_path :: json
  output_wave_path :: json
  testbench_path :: json
  golden_model_path :: json

text \<open>\<^verbatim>\<open>str(idx)\<close> for the index of \<^verbatim>\<open>enumerate\<close>, a natural number.\<close>

definition digit_char :: "nat \<Rightarrow> char" where
  "digit_char d = char_of (48 + d)"

fun str_nat :: "nat \<Rightarrow> string" where
  "str_nat n = (if n < 10 then [digit_char n] else str_nat (n div 10) @ [digit_char (n mod 10)])"

declare str_nat.simps [simp del]


text \<open>The dict built for the entry \<^verbatim>\<open>tc\<close> at position \<^verbatim>\<open>idx\<close> of the test-case list.\<close>

definition make_testcase_info ::
  "string \<Rightarrow> string \<Rightarrow> (string \<times> json) list \<Rightarrow> nat \<Rightarrow> (string \<times> json) list \<Rightarrow> testcase_info" where
  "make_testcase_info current_module module_name test_config idx tc =
     \<lparr>module = current_module,
      module_path = module_name,
      test_name = dict_get tc ''name'' (JStr (''test_'' @ str_nat idx)),
      run_cmd = dict_get tc ''run_cmd'' (JStr []),
      output_log_path = dict_get tc ''output_log_path'' (JArr []),
      output_wave_path = dict_get tc ''output_wave_path'' JNull,
      testbench_path = dict_get test_config ''testbench_path'' (JStr []),
      golden_model_path = dict_get test_config ''golden_model_path'' (JStr [])\<rparr>"

text \<open>
  \<^verbatim>\<open>for idx, tc in enumerate(test_case_list)\<close>: entries that are not dicts are skipped, and
  still counted.
\<close>

fun testcase_entries ::
  "string \<Rightarrow> string \<Rightarrow> (string \<times> json) list \<Rightarrow> nat \<Rightarrow> json list \<Rightarrow> testcase_info list" where
  "testcase_entries current_module module_name test_config idx [] = []"
| "testcase_entries current_module module_name test_config idx (JObj tc # rest) =
     make_testcase_info current_module module_name test_config idx tc
     # testcase_entries current_module module_name test_config (Suc idx) rest"
| "testcase_entries current_module module_name test_config idx (_ # rest) =
     testcase_entries current_module module_name test_config (Suc idx) rest"

text \<open>
  The body of \<^verbatim>\<open>if test_case_list and isinstance(test_case_list, list)\<close>, for a test
  configuration that is a non-empty dict.
\<close>

definition config_testcases :: "string \<Rightarrow> string \<Rightarrow> (string \<times> json) list \<Rightarrow> testcase_info list" where
  "config_testcases current_module module_name test_config =
     (case dict_get test_config ''test_case'' (JArr []) of
        JArr test_case_list \<Rightarrow>
          testcase_entries current_module module_name test_config 0 test_case_list
      | _ \<Rightarrow> [])"

text \<open>\<^verbatim>\<open>test_config = data.get('test')\<close>; \<^verbatim>\<open>if test_config and isinstance(test_config, dict)\<close>.\<close>

definition module_testcases :: "string \<Rightarrow> string \<Rightarrow> (string \<times> json) list \<Rightarrow> testcase_info list" where
  "module_testcases current_module module_name kvs =
     (case map_of kvs ''test'' of
        Some (JObj test_config) \<Rightarrow>
          (if test_config \<noteq> [] then config_testcases current_module module_name test_config
           else [])
      | _ \<Rightarrow> [])"

text \<open>
  \<open>extract_testcases\<close> returns its list together with the \<^verbatim>\<open>visited\<close> set, as
  \<open>extract_modules\<close> does; \<open>extract_testcases_each\<close> is the loop over a \<^verbatim>\<open>submodules\<close> list.
\<close>

function (sequential)
  extract_testcases :: "json \<Rightarrow> string \<Rightarrow> string set \<Rightarrow> error + testcase_info list \<times> string set"
  and extract_testcases_each ::
    "json list \<Rightarrow> string \<Rightarrow> string set \<Rightarrow> error + testcase_info list \<times> string set"
where
  "extract_testcases (JObj kvs) module_name visited =
     (case map_of kvs ''name'' of
        None \<Rightarrow> Inr ([], visited)
      | Some (JStr current_module) \<Rightarrow>
          (if current_module \<in> visited then Inr ([], visited)
           else
             (let visited1 = insert current_module visited;
                  testcases = module_testcases current_module module_name kvs;
                  full_module_path = child_path module_name current_module
              in case map_of kvs ''submodules'' of
                   Some (JArr subs) \<Rightarrow>
                     (case extract_testcases_each subs full_module_path visited1 of
                        Inl e \<Rightarrow> Inl e
                      | Inr (ts, visited2) \<Rightarrow> Inr (testcases @ ts, visited2))
                 | Some (JObj sub) \<Rightarrow>
                     (if sub \<noteq> [] then
                        (case extract_testcases (JObj sub) full_module_path visited1 of
                           Inl e \<Rightarrow> Inl e
                         | Inr (ts, visited2) \<Rightarrow> Inr (testcases @ ts, visited2))
                      else Inr (testcases, visited1))
                 | _ \<Rightarrow> Inr (testcases, visited1)))
      | Some v \<Rightarrow> Inl (NameNotStr v))"
| "extract_testcases _ module_name visited = Inr ([], visited)"
| "extract_testcases_each [] module_name visited = Inr ([], visited)"
| "extract_testcases_each (submodule # rest) module_name visited =
     (if is_dict submodule then
        (case extract_testcases submodule module_name visited of
           Inl e \<Rightarrow> Inl e
         | Inr (ts, visited1) \<Rightarrow>
             (case extract_testcases_each rest module_name visited1 of
                Inl e \<Rightarrow> Inl e
              | Inr (ts', visited2) \<Rightarrow> Inr (ts @ ts', visited2)))
      else extract_testcases_each rest module_name visited)"
  by pat_completeness auto
termination
  by (relation "measure (case_sum (\<lambda>(d, _, _). 2 * size d)
                                  (\<lambda>(ds, _, _). 2 * size_list size ds + 1))")
     (auto dest: size_map_of)

declare extract_testcases.simps [simp del]

section \<open>Positions in the module tree\<close>

text \<open>
  To say where in a document a record comes from: \<open>submodule_nodes\<close> are the values both
  extractors walk below a node (the dicts of a non-empty \<^verbatim>\<open>submodules\<close> list, or a non-empty
  \<^verbatim>\<open>submodules\<close> dict), and \<open>lineage d ns m\<close> says that the node \<open>m\<close> is reached from \<open>d\<close>
  through ancestors named \<open>ns\<close>, from \<open>d\<close> itself down to the parent of \<open>m\<close>.
\<close>

fun submodule_nodes :: "json \<Rightarrow> json list" where
  "submodule_nodes (JObj kvs) =
     (case map_of kvs ''submodules'' of
        Some (JArr subs) \<Rightarrow> filter is_dict subs
      | Some (JObj sub) \<Rightarrow> (if sub \<noteq> [] then [JObj sub] else [])
      | _ \<Rightarrow> [])"
| "submodule_nodes _ = []"

fun node_name :: "json \<Rightarrow> string option" where
  "node_name (JObj kvs) = (case map_of kvs ''name'' of Some (JStr n) \<Rightarrow> Some n | _ \<Rightarrow> None)"
| "node_name _ = None"

inductive lineage :: "json \<Rightarrow> string list \<Rightarrow> json \<Rightarrow> bool" where
  here: "lineage d [] d"
| down: "node_name d = Some n \<Longrightarrow> c \<in> set (submodule_nodes d) \<Longrightarrow> lineage c ns m
         \<Longrightarrow> lineage d (n # ns) m"

code_pred lineage .

text \<open>
  The path handed down along a chain of ancestors, built as the extractors build it, and
  \<^verbatim>\<open>'/'.join(ns)\<close> to compare it with.
\<close>

definition descend :: "string \<Rightarrow> string list \<Rightarrow> string" where
  "descend parent_name ns = foldl child_path parent_name ns"

fun join_slash :: "string list \<Rightarrow> string" where
  "join_slash [] = []"
| "join_slash [n] = n"
| "join_slash (n # ns) = n @ ''/'' @ join_slash ns"

text \<open>
  \<open>placed data p ms r\<close>: the record \<open>r\<close> is the one built for a module found below \<open>data\<close>
  through the ancestors named \<open>ns\<close>, with the path accumulated from \<open>p\<close> along \<open>ns\<close>
  as its parent path; unless the module is \<open>data\<close> itself, its parent's record is in
  \<open>ms\<close> and carries that path as full path.
\<close>

definition placed :: "json \<Rightarrow> string \<Rightarrow> module_info list \<Rightarrow> module_info \<Rightarrow> bool" where
  "placed data p ms r =
     (\<exists>ns kvs n. lineage data ns (JObj kvs) \<and> is_module (JObj kvs) \<and>
        map_of kvs ''name'' = Some (JStr n) \<and> r = make_module_info kvs n (descend p ns) \<and>
        (ns = [] \<or> (\<exists>r' \<in> set ms. full_path r' = descend p ns \<and> name r' = last ns)))"

text \<open>
  \<open>owned data p t\<close>: the test-case record \<open>t\<close> is one of those built for a node found below
  \<open>data\<close> through the ancestors named \<open>ns\<close>, with the path accumulated from \<open>p\<close> along
  \<open>ns\<close> as module path.
\<close>

definition owned :: "json \<Rightarrow> string \<Rightarrow> testcase_info \<Rightarrow> bool" where
  "owned data p t =
     (\<exists>ns kvs. lineage data ns (JObj kvs) \<and> map_of kvs ''name'' = Some (JStr (module t)) \<and>
        t \<in> set (module_testcases (module t) (descend p ns) kvs))"

section \<open>The traversal, as the specification describes it\<close>

text \<open>
  The sub-modules of a node are smaller than the node: what the recursive definitions of this
  section rest on.
\<close>

lemma size_submodule_nodes: "c \<in> set (submodule_nodes d) \<Longrightarrow> size c < size d"
proof (cases d)
  case (JObj kvs)
  assume c: "c \<in> set (submodule_nodes d)"
  show ?thesis
  proof (cases "map_of kvs ''submodules''")
    case None
    with c JObj show ?thesis by simp
  next
    case (Some s)
    from size_map_of[OF Some] JObj have s: "size s < size d" by simp
    show ?thesis
    proof (cases s)
      case (JArr subs)
      with c JObj Some have "c \<in> set subs" by simp
      then have "size c < Suc (size_list size subs)"
        by (induction subs) auto
      with s JArr show ?thesis by simp
    next
      case inner: (JObj sub)
      with c JObj Some s show ?thesis by (cases "sub = []") simp_all
    qed (use c JObj Some in simp_all)
  qed
qed simp_all

lemma sum_size_submodule_nodes:
  "sum_list (map (\<lambda>c. Suc (size c)) (submodule_nodes d)) \<le> size d"
proof (cases d)
  case (JObj kvs)
  show ?thesis
  proof (cases "map_of kvs ''submodules''")
    case None
    with JObj show ?thesis by simp
  next
    case (Some s)
    from size_map_of[OF Some] JObj have s: "size s < size d" by simp
    show ?thesis
    proof (cases s)
      case (JArr subs)
      have "sum_list (map (\<lambda>c. Suc (size c)) (filter is_dict subs)) \<le> size_list size subs"
        by (induction subs) auto
      with s JArr JObj Some show ?thesis by simp
    next
      case inner: (JObj sub)
      with JObj Some s show ?thesis by (cases "sub = []") simp_all
    qed (use JObj Some in simp_all)
  qed
qed simp_all

text \<open>
  The extractors are annotated \<^verbatim>\<open>parent_name: str\<close> and \<^verbatim>\<open>visited: Set[str]\<close>. \<open>str_names d\<close>
  says that the document keeps to that: every \<^verbatim>\<open>name\<close> field met on the way down through
  \<^verbatim>\<open>submodules\<close>, at \<open>d\<close> and at every node below it, holds a string. On such a document the
  embedding never stops with \<open>NameNotStr\<close>.
\<close>

function (sequential) str_names :: "json \<Rightarrow> bool" where
  "str_names (JObj kvs) =
     ((case map_of kvs ''name'' of Some v \<Rightarrow> is_str v | None \<Rightarrow> True) \<and>
      list_all str_names (submodule_nodes (JObj kvs)))"
| "str_names _ = True"
  by pat_completeness auto
termination
  by (relation "measure size") (auto simp del: submodule_nodes.simps dest!: size_submodule_nodes)

text \<open>
  The traversal in the words of the specification: depth-first and pre-order, the
  sub-modules of a node from the first to the last, with one visited set for the whole
  traversal that is looked up before a node emits anything. It is written with a work list
  in place of the recursion over the tree: \<open>pending\<close> holds the nodes still to be looked at,
  each with the path handed down to it, the next one first. \<open>visit path node\<close> says whether
  the node qualifies and, if it does, gives its deduplication key, the records it emits and
  the path it hands to its sub-modules. A node whose key is visited already is dropped with
  everything below it. Otherwise its records come first, then those found below its
  sub-modules, then those of the nodes that were pending before.
\<close>

function spec_walk ::
  "(string \<Rightarrow> json \<Rightarrow> (string \<times> 'r list \<times> string) option) \<Rightarrow> (string \<times> json) list \<Rightarrow>
   string set \<Rightarrow> 'r list" where
  "spec_walk visit [] visited = []"
| "spec_walk visit ((path, node) # pending) visited =
     (case visit path node of
        None \<Rightarrow> spec_walk visit pending visited
      | Some (key, records, path') \<Rightarrow>
          if key \<in> visited then spec_walk visit pending visited
          else records @ spec_walk visit
                 (map (Pair path') (submodule_nodes node) @ pending) (insert key visited))"
  by pat_completeness auto
termination
proof (relation "measure (\<lambda>(visit, pending, visited). sum_list (map (\<lambda>(p, d). Suc (size d)) pending))",
       goal_cases)
  case (4 visit path node pending visited x2 key y records path')
  have "sum_list (map (\<lambda>(p, d). Suc (size d)) (map (Pair path') (submodule_nodes node))) =
        sum_list (map (\<lambda>c. Suc (size c)) (submodule_nodes node))"
    by (simp add: comp_def)
  with sum_size_submodule_nodes[of node] show ?case by simp
qed simp_all

declare spec_walk.simps [simp del]

text \<open>
  What a node contributes in \<^verbatim>\<open>extract_modules\<close>: it qualifies with the three required fields,
  its key is its full path, it emits its one record and hands its full path down.
\<close>

fun module_entry :: "string \<Rightarrow> json \<Rightarrow> (string \<times> module_info list \<times> string) option" where
  "module_entry parent_name (JObj kvs) =
     (if is_module (JObj kvs) then
        (case map_of kvs ''name'' of
           Some (JStr module_name) \<Rightarrow>
             Some (child_path parent_name module_name,
                   [make_module_info kvs module_name parent_name],
                   child_path parent_name module_name)
         | _ \<Rightarrow> None)
      else None)"
| "module_entry parent_name _ = None"

text \<open>
  What a node contributes in \<^verbatim>\<open>extract_testcases\<close>: it qualifies with a \<^verbatim>\<open>name\<close>, its key is the
  bare name, it emits its test cases and hands down the accumulated module path.
\<close>

fun testcase_entry :: "string \<Rightarrow> json \<Rightarrow> (string \<times> testcase_info list \<times> string) option" where
  "testcase_entry module_name (JObj kvs) =
     (case map_of kvs ''name'' of
        Some (JStr current_module) \<Rightarrow>
          Some (current_module, module_testcases current_module module_name kvs,
                child_path module_name current_module)
      | _ \<Rightarrow> None)"
| "testcase_entry module_name _ = None"

text \<open>
  \<open>sole_owner data p ts n\<close>: the records of \<open>ts\<close> that carry the module name \<open>n\<close> are the
  test cases of one single node named \<open>n\<close> found below \<open>data\<close>, built with the path
  accumulated from \<open>p\<close> on the way to that node.
\<close>

definition sole_owner :: "json \<Rightarrow> string \<Rightarrow> testcase_info list \<Rightarrow> string \<Rightarrow> bool" where
  "sole_owner data p ts n =
     (\<exists>ns kvs. lineage data ns (JObj kvs) \<and> map_of kvs ''name'' = Some (JStr n) \<and>
        filter (\<lambda>t. module t = n) ts = module_testcases n (descend p ns) kvs)"

section \<open>load\_json\_with\_refs: the reference resolver\<close>

text \<open>
  A file system as the resolver sees it. \<open>files fs p\<close> is \<open>None\<close> when \<^verbatim>\<open>p.exists()\<close> is false;
  otherwise it is what \<^verbatim>\<open>json.load\<close> makes of the text of the file: a document, or
  \<open>Malformed\<close> when it raises \<^verbatim>\<open>JSONDecodeError\<close>. Paths are of any type \<open>'p\<close>: \<open>join_path\<close>
  is \<^verbatim>\<open>current_base / ref_path\<close> and \<open>parent_dir\<close> is \<^verbatim>\<open>.parent\<close> of \<^verbatim>\<open>pathlib\<close>, and nothing
  is assumed about them.
\<close>

datatype file_text = Malformed | Document json

record 'p fsys =
  files :: "'p \<Rightarrow> file_text option"
  join_path :: "'p \<Rightarrow> string \<Rightarrow> 'p"
  parent_dir :: "'p \<Rightarrow> 'p"

text \<open>
  The exceptions of the resolver: \<^verbatim>\<open>FileNotFoundError\<close> with the path its message names
  (\<^verbatim>\<open>f"Referenced file not found: {ref_file}"\<close>, or the root path that \<^verbatim>\<open>open\<close> did not find),
  \<^verbatim>\<open>JSONDecodeError\<close> with the file that did not parse, and the \<^verbatim>\<open>AttributeError\<close> of
  \<^verbatim>\<open>ref_path.startswith\<close> on a \<^verbatim>\<open>$ref\<close> that is not a string.
\<close>

datatype 'p exn = FileNotFoundError 'p | JSONDecodeError 'p | AttributeError json

text \<open>\<^verbatim>\<open>ref_path.startswith('./') or ref_path.startswith('../')\<close>\<close>

definition is_relative :: "string \<Rightarrow> bool" where
  "is_relative ref_path = (take 2 ref_path = ''./'' \<or> take 3 ref_path = ''../'')"

text \<open>
  \<open>resolve_refs\<close> is the inner function of \<^verbatim>\<open>load_json_with_refs\<close>; \<open>resolve_items\<close> is its
  dict comprehension and \<open>resolve_elems\<close> its list comprehension, both evaluated from left
  to right and left by the first exception. The source recurses into the referenced file
  without any bound and without looking for cycles, so the model carries fuel: each step
  into another file costs one unit, and \<open>None\<close> says that the fuel did not suffice. An
  outcome \<open>Some (Inl e)\<close> is the exception raised, \<open>Some (Inr d)\<close> the document returned.
\<close>

function (sequential)
  resolve_refs :: "'p fsys \<Rightarrow> nat \<Rightarrow> json \<Rightarrow> 'p \<Rightarrow> ('p exn + json) option"
  and resolve_items ::
    "'p fsys \<Rightarrow> nat \<Rightarrow> (string \<times> json) list \<Rightarrow> 'p \<Rightarrow> ('p exn + (string \<times> json) list) option"
  and resolve_elems :: "'p fsys \<Rightarrow> nat \<Rightarrow> json list \<Rightarrow> 'p \<Rightarrow> ('p exn + json list) option"
where
  "resolve_refs fs fuel (JObj kvs) current_base =
     (case map_of kvs ''$ref'' of
        Some (JStr ref_path) \<Rightarrow>
          (if is_relative ref_path then
             (let ref_file = join_path fs current_base ref_path in
              case files fs ref_file of
                None \<Rightarrow> Some (Inl (FileNotFoundError ref_file))
              | Some Malformed \<Rightarrow> Some (Inl (JSONDecodeError ref_file))
              | Some (Document ref_data) \<Rightarrow>
                  (case fuel of
                     0 \<Rightarrow> None
                   | Suc fuel' \<Rightarrow> resolve_refs fs fuel' ref_data (parent_dir fs ref_file)))
           else Some (Inr (JObj kvs)))
      | Some v \<Rightarrow> Some (Inl (AttributeError v))
      | None \<Rightarrow>
          (case resolve_items fs fuel kvs current_base of
             None \<Rightarrow> None
           | Some (Inl e) \<Rightarrow> Some (Inl e)
           | Some (Inr kvs') \<Rightarrow> Some (Inr (JObj kvs'))))"
| "resolve_refs fs fuel (JArr xs) current_base =
     (case resolve_elems fs fuel xs current_base of
        None \<Rightarrow> None
      | Some (Inl e) \<Rightarrow> Some (Inl e)
      | Some (Inr xs') \<Rightarrow> Some (Inr (JArr xs')))"
| "resolve_refs fs fuel obj current_base = Some (Inr obj)"
| "resolve_items fs fuel [] current_base = Some (Inr [])"
| "resolve_items fs fuel ((k, v) # rest) current_base =
     (case resolve_refs fs fuel v current_base of
        None \<Rightarrow> None
      | Some (Inl e) \<Rightarrow> Some (Inl e)
      | Some (Inr v') \<Rightarrow>
          (case resolve_items fs fuel rest current_base of
             None \<Rightarrow> None
           | Some (Inl e) \<Rightarrow> Some (Inl e)
           | Some (Inr rest') \<Rightarrow> Some (Inr ((k, v') # rest'))))"
| "resolve_elems fs fuel [] current_base = Some (Inr [])"
| "resolve_elems fs fuel (item # rest) current_base =
     (case resolve_refs fs fuel item current_base of
        None \<Rightarrow> None
      | Some (Inl e) \<Rightarrow> Some (Inl e)
      | Some (Inr item') \<Rightarrow>
          (case resolve_elems fs fuel rest current_base of
             None \<Rightarrow> None
           | Some (Inl e) \<Rightarrow> Some (Inl e)
           | Some (Inr rest') \<Rightarrow> Some (Inr (item' # rest'))))"
  by pat_completeness auto
termination
  by (relation "inv_image (less_than <*lex*> less_than)
        (\<lambda>x. case x of
           Inl (fs, fuel, obj, b) \<Rightarrow> (fuel, 2 * size obj)
         | Inr (Inl (fs, fuel, kvs, b)) \<Rightarrow> (fuel, 2 * size_list (size_prod (\<lambda>_. 0) size) kvs + 1)
         | Inr (Inr (fs, fuel, xs, b)) \<Rightarrow> (fuel, 2 * size_list size xs + 1))")
     auto

text \<open>
  \<^verbatim>\<open>load_json_with_refs(file_path)\<close>: the root file is opened without a test for existence,
  and resolved relative to its own directory.
\<close>

definition load_json_with_refs :: "'p fsys \<Rightarrow> nat \<Rightarrow> 'p \<Rightarrow> ('p exn + json) option" where
  "load_json_with_refs fs fuel file_path =
     (case files fs file_path of
        None \<Rightarrow> Some (Inl (FileNotFoundError file_path))
      | Some Malformed \<Rightarrow> Some (Inl (JSONDecodeError file_path))
      | Some (Document data) \<Rightarrow> resolve_refs fs fuel data (parent_dir fs file_path))"

declare resolve_refs.simps [simp del]

text \<open>
  The last line of the dict branch on its own,
  \<^verbatim>\<open>return {k: resolve_refs(v, current_base) for k, v in obj.items()}\<close>:
  what resolving a mapping as an ordinary mapping means.
\<close>

definition resolve_as_mapping ::
  "'p fsys \<Rightarrow> nat \<Rightarrow> (string \<times> json) list \<Rightarrow> 'p \<Rightarrow> ('p exn + json) option" where
  "resolve_as_mapping fs fuel kvs current_base =
     (case resolve_items fs fuel kvs current_base of
        None \<Rightarrow> None
      | Some (Inl e) \<Rightarrow> Some (Inl e)
      | Some (Inr kvs') \<Rightarrow> Some (Inr (JObj kvs')))"

section \<open>validate\_schema.py: the validator adapter\<close>

text \<open>
  The entries of \<^verbatim>\<open>e.path\<close> of a \<^verbatim>\<open>ValidationError\<close>: property names and list indices.
\<close>

datatype path_elem = Key string | Index nat

text \<open>
  What the body of \<^verbatim>\<open>validate_json\<close> can raise, by the classes its handlers tell apart:
  \<^verbatim>\<open>FileNotFoundError\<close>, \<^verbatim>\<open>json.JSONDecodeError\<close>, \<^verbatim>\<open>jsonschema.ValidationError\<close> (with its
  \<^verbatim>\<open>path\<close> and \<^verbatim>\<open>message\<close>), and any other class derived from \<^verbatim>\<open>Exception\<close> (\<^verbatim>\<open>OSError\<close>,
  \<^verbatim>\<open>AttributeError\<close>, \<^verbatim>\<open>RecursionError\<close>, ...). The last string of each is \<^verbatim>\<open>str(e)\<close>.
  \<^verbatim>\<open>KeyboardInterrupt\<close> and \<^verbatim>\<open>SystemExit\<close>, which do not derive from \<^verbatim>\<open>Exception\<close>, are
  signals of the interpreter and not modelled.
\<close>

datatype exc =
    FileNotFound string
  | JSONDecode string
  | Validation "path_elem list" string string
  | OtherException string

fun exc_str :: "exc \<Rightarrow> string" where
  "exc_str (FileNotFound s) = s"
| "exc_str (JSONDecode s) = s"
| "exc_str (Validation path message s) = s"
| "exc_str (OtherException s) = s"

text \<open>\<^verbatim>\<open>sep.join(xs)\<close>.\<close>

fun str_join :: "string \<Rightarrow> string list \<Rightarrow> string" where
  "str_join sep [] = []"
| "str_join sep [x] = x"
| "str_join sep (x # xs) = x @ sep @ str_join sep xs"

fun path_elem_str :: "path_elem \<Rightarrow> string" where
  "path_elem_str (Key k) = k"
| "path_elem_str (Index i) = str_nat i"

text \<open>\<^verbatim>\<open>' -> '.join(str(p) for p in e.path) if e.path else 'root'\<close>\<close>

definition error_path :: "path_elem list \<Rightarrow> string" where
  "error_path path = (if path \<noteq> [] then str_join '' -> '' (map path_elem_str path) else ''root'')"

text \<open>The returned tuple \<^verbatim>\<open>(is_valid, error_message)\<close>.\<close>

type_synonym verdict = "bool \<times> string option"

text \<open>
  The four \<^verbatim>\<open>except\<close> clauses in their order. A handler answers \<open>None\<close> when the exception
  is not an instance of its class.
\<close>

definition on_file_not_found :: "exc \<Rightarrow> verdict option" where
  "on_file_not_found e =
     (case e of FileNotFound s \<Rightarrow> Some (False, Some (''File not found: '' @ exc_str e))
      | _ \<Rightarrow> None)"

definition on_json_decode :: "string \<Rightarrow> exc \<Rightarrow> verdict option" where
  "on_json_decode json_path e =
     (case e of
        JSONDecode s \<Rightarrow>
          Some (False, Some (''Invalid JSON format in '' @ json_path @ '': '' @ exc_str e))
      | _ \<Rightarrow> None)"

definition on_validation :: "exc \<Rightarrow> verdict option" where
  "on_validation e =
     (case e of
        Validation path message s \<Rightarrow>
          Some (False, Some (''Validation error at '' @ [CHR 0x27] @ error_path path @ [CHR 0x27]
                              @ '': '' @ message))
      | _ \<Rightarrow> None)"

definition on_exception :: "exc \<Rightarrow> verdict option" where
  "on_exception e = Some (False, Some (''Unexpected error: '' @ exc_str e))"

text \<open>
  \<^verbatim>\<open>try: ... except A: ... except B: ...\<close>: the first clause that matches handles the
  exception; with no matching clause it propagates (\<open>Inl\<close>).
\<close>

fun try_except :: "exc + 'a \<Rightarrow> (exc \<Rightarrow> 'a option) list \<Rightarrow> exc + 'a" where
  "try_except (Inr r) handlers = Inr r"
| "try_except (Inl e) [] = Inl e"
| "try_except (Inl e) (h # handlers) =
     (case h e of Some r \<Rightarrow> Inr r | None \<Rightarrow> try_except (Inl e) handlers)"

text \<open>
  The body of the \<^verbatim>\<open>try\<close>. The three fallible steps are parameters: \<open>json_load\<close> is
  \<^verbatim>\<open>open\<close> with \<^verbatim>\<open>json.load\<close>, \<open>load_refs\<close> is \<^verbatim>\<open>load_json_with_refs\<close> (which returns or
  raises; an unbounded recursion ends in \<^verbatim>\<open>RecursionError\<close>), and \<open>engine\<close> stands for
  building the schema store and the resolver and calling \<^verbatim>\<open>jsonschema.validate\<close>, each of
  which may raise anything.
\<close>

definition validate_body ::
  "(string \<Rightarrow> exc + json) \<Rightarrow> (string \<Rightarrow> exc + json) \<Rightarrow> (json \<Rightarrow> json \<Rightarrow> exc + unit) \<Rightarrow>
   string \<Rightarrow> string \<Rightarrow> bool \<Rightarrow> exc + verdict" where
  "validate_body json_load load_refs engine schema_path json_path resolve_first =
     (case json_load schema_path of
        Inl e \<Rightarrow> Inl e
      | Inr schema \<Rightarrow>
          (case (if resolve_first then load_refs json_path else json_load json_path) of
             Inl e \<Rightarrow> Inl e
           | Inr data \<Rightarrow>
               (case engine schema data of
                  Inl e \<Rightarrow> Inl e
                | Inr _ \<Rightarrow> Inr (True, None))))"

definition validate_json ::
  "(string \<Rightarrow> exc + json) \<Rightarrow> (string \<Rightarrow> exc + json) \<Rightarrow> (json \<Rightarrow> json \<Rightarrow> exc + unit) \<Rightarrow>
   string \<Rightarrow> string \<Rightarrow> bool \<Rightarrow> exc + verdict" where
  "validate_json json_load load_refs engine schema_path json_path resolve_first =
     try_except (validate_body json_load load_refs engine schema_path json_path resolve_first)
       [on_file_not_found, on_json_decode json_path, on_validation, on_exception]"

text \<open>The outcomes a caller can see: success, or a failure message of one of four kinds.\<close>

definition starts_with :: "string \<Rightarrow> string \<Rightarrow> bool" where
  "starts_with prefix s = (take (length prefix) s = prefix)"

definition closed_outcome :: "verdict \<Rightarrow> bool" where
  "closed_outcome v =
     (v = (True, None) \<or>
      (\<exists>m. v = (False, Some m) \<and>
         (starts_with ''File not found: '' m \<or> starts_with ''Invalid JSON format in '' m \<or>
          starts_with ''Validation error at '' m \<or> starts_with ''Unexpected error: '' m)))"

section \<open>The reference graph of a file system\<close>

text \<open>
  \<open>rel_refs d\<close> lists the paths of all relative reference nodes of a document: every mapping,
  at any depth, with a \<^verbatim>\<open>$ref\<close> that begins with \<^verbatim>\<open>./\<close> or \<^verbatim>\<open>../\<close>. A document has no relative
  reference node left when this list is empty.
\<close>

fun rel_refs :: "json \<Rightarrow> string list" and rel_refs_items :: "(string \<times> json) list \<Rightarrow> string list"
  and rel_refs_elems :: "json list \<Rightarrow> string list" where
  "rel_refs (JObj kvs) =
     (case map_of kvs ''$ref'' of
        Some (JStr ref_path) \<Rightarrow> (if is_relative ref_path then [ref_path] else [])
      | _ \<Rightarrow> []) @ rel_refs_items kvs"
| "rel_refs (JArr xs) = rel_refs_elems xs"
| "rel_refs _ = []"
| "rel_refs_items [] = []"
| "rel_refs_items ((k, v) # rest) = rel_refs v @ rel_refs_items rest"
| "rel_refs_elems [] = []"
| "rel_refs_elems (x # rest) = rel_refs x @ rel_refs_elems rest"

text \<open>
  \<open>pending_refs d\<close> lists those of them that the resolver visits: it does not look at the
  other items of a mapping that has a \<^verbatim>\<open>$ref\<close> key.
\<close>

fun pending_refs :: "json \<Rightarrow> string list" and pending_refs_items :: "(string \<times> json) list \<Rightarrow> string list"
  and pending_refs_elems :: "json list \<Rightarrow> string list" where
  "pending_refs (JObj kvs) =
     (case map_of kvs ''$ref'' of
        Some (JStr ref_path) \<Rightarrow> (if is_relative ref_path then [ref_path] else [])
      | Some v \<Rightarrow> []
      | None \<Rightarrow> pending_refs_items kvs)"
| "pending_refs (JArr xs) = pending_refs_elems xs"
| "pending_refs _ = []"
| "pending_refs_items [] = []"
| "pending_refs_items ((k, v) # rest) = pending_refs v @ pending_refs_items rest"
| "pending_refs_elems [] = []"
| "pending_refs_elems (x # rest) = pending_refs x @ pending_refs_elems rest"

text \<open>
  The reference graph: an edge from every file that parses to the path each of its
  relative references names, taken relative to the directory of that file.
\<close>

definition ref_edges :: "'p fsys \<Rightarrow> ('p \<times> 'p) set" where
  "ref_edges fs = {(p, q). \<exists>d ref_path. files fs p = Some (Document d) \<and>
      ref_path \<in> set (rel_refs d) \<and> q = join_path fs (parent_dir fs p) ref_path}"

section \<open>Resolution, as the specification describes it\<close>

text \<open>
  What resolution yields, as a relation that follows the algorithm of the specification,
  with the exceptions that the source raises: \<open>spec_resolves fs b d r\<close> says that resolving \<open>d\<close> relative to the directory \<open>b\<close> ends with the
  outcome \<open>r\<close>, an exception or a document. A reference node with a relative path has the
  outcome of its target, resolved relative to the directory of the target; one with another
  path is returned as it is; a mapping without \<^verbatim>\<open>$ref\<close> and a list are rebuilt from the
  outcomes of their values, from left to right up to the first exception; scalars pass
  through. The relation carries no fuel.
\<close>

inductive
  spec_resolves :: "'p fsys \<Rightarrow> 'p \<Rightarrow> json \<Rightarrow> 'p exn + json \<Rightarrow> bool" and
  spec_resolves_items ::
    "'p fsys \<Rightarrow> 'p \<Rightarrow> (string \<times> json) list \<Rightarrow> 'p exn + (string \<times> json) list \<Rightarrow> bool" and
  spec_resolves_elems :: "'p fsys \<Rightarrow> 'p \<Rightarrow> json list \<Rightarrow> 'p exn + json list \<Rightarrow> bool"
  for fs :: "'p fsys"
where
  target:
    "map_of kvs ''$ref'' = Some (JStr ref_path) \<Longrightarrow> is_relative ref_path \<Longrightarrow>
     files fs (join_path fs current_base ref_path) = Some (Document ref_data) \<Longrightarrow>
     spec_resolves fs (parent_dir fs (join_path fs current_base ref_path)) ref_data r \<Longrightarrow>
     spec_resolves fs current_base (JObj kvs) r"
| missing:
    "map_of kvs ''$ref'' = Some (JStr ref_path) \<Longrightarrow> is_relative ref_path \<Longrightarrow>
     files fs (join_path fs current_base ref_path) = None \<Longrightarrow>
     spec_resolves fs current_base (JObj kvs)
       (Inl (FileNotFoundError (join_path fs current_base ref_path)))"
| malformed:
    "map_of kvs ''$ref'' = Some (JStr ref_path) \<Longrightarrow> is_relative ref_path \<Longrightarrow>
     files fs (join_path fs current_base ref_path) = Some Malformed \<Longrightarrow>
     spec_resolves fs current_base (JObj kvs)
       (Inl (JSONDecodeError (join_path fs current_base ref_path)))"
| opaque:
    "map_of kvs ''$ref'' = Some (JStr ref_path) \<Longrightarrow> \<not> is_relative ref_path \<Longrightarrow>
     spec_resolves fs current_base (JObj kvs) (Inr (JObj kvs))"
| not_str:
    "map_of kvs ''$ref'' = Some v \<Longrightarrow> \<not> is_str v \<Longrightarrow>
     spec_resolves fs current_base (JObj kvs) (Inl (AttributeError v))"
| mapping:
    "map_of kvs ''$ref'' = None \<Longrightarrow> spec_resolves_items fs current_base kvs (Inr kvs') \<Longrightarrow>
     spec_resolves fs current_base (JObj kvs) (Inr (JObj kvs'))"
| mapping_raises:
    "map_of kvs ''$ref'' = None \<Longrightarrow> spec_resolves_items fs current_base kvs (Inl e) \<Longrightarrow>
     spec_resolves fs current_base (JObj kvs) (Inl e)"
| sequence:
    "spec_resolves_elems fs current_base xs (Inr xs') \<Longrightarrow>
     spec_resolves fs current_base (JArr xs) (Inr (JArr xs'))"
| sequence_raises:
    "spec_resolves_elems fs current_base xs (Inl e) \<Longrightarrow> spec_resolves fs current_base (JArr xs) (Inl e)"
| scalar_null: "spec_resolves fs current_base JNull (Inr JNull)"
| scalar_bool: "spec_resolves fs current_base (JBool x) (Inr (JBool x))"
| scalar_num: "spec_resolves fs current_base (JNum i) (Inr (JNum i))"
| scalar_str: "spec_resolves fs current_base (JStr s) (Inr (JStr s))"
| no_items: "spec_resolves_items fs current_base [] (Inr [])"
| items:
    "spec_resolves fs current_base v (Inr v') \<Longrightarrow> spec_resolves_items fs current_base rest (Inr rest') \<Longrightarrow>
     spec_resolves_items fs current_base ((k, v) # rest) (Inr ((k, v') # rest'))"
| item_raises:
    "spec_resolves fs current_base v (Inl e) \<Longrightarrow>
     spec_resolves_items fs current_base ((k, v) # rest) (Inl e)"
| later_item_raises:
    "spec_resolves fs current_base v (Inr v') \<Longrightarrow> spec_resolves_items fs current_base rest (Inl e) \<Longrightarrow>
     spec_resolves_items fs current_base ((k, v) # rest) (Inl e)"
| no_elems: "spec_resolves_elems fs current_base [] (Inr [])"
| elems:
    "spec_resolves fs current_base x (Inr x') \<Longrightarrow> spec_resolves_elems fs current_base rest (Inr rest') \<Longrightarrow>
     spec_resolves_elems fs current_base (x # rest) (Inr (x' # rest'))"
| elem_raises:
    "spec_resolves fs current_base x (Inl e) \<Longrightarrow> spec_resolves_elems fs current_base (x # rest) (Inl e)"
| later_elem_raises:
    "spec_resolves fs current_base x (Inr x') \<Longrightarrow> spec_resolves_elems fs current_base rest (Inl e) \<Longrightarrow>
     spec_resolves_elems fs current_base (x # rest) (Inl e)"

code_pred spec_resolves .

text \<open>
  \<open>ref_free d\<close>: no mapping that the resolver comes to in \<open>d\<close> has a \<^verbatim>\<open>$ref\<close> key.
\<close>

fun ref_free :: "json \<Rightarrow> bool" and ref_free_items :: "(string \<times> json) list \<Rightarrow> bool"
  and ref_free_elems :: "json list \<Rightarrow> bool" where
  "ref_free (JObj kvs) = (map_of kvs ''$ref'' = None \<and> ref_free_items kvs)"
| "ref_free (JArr xs) = ref_free_elems xs"
| "ref_free _ = True"
| "ref_free_items [] = True"
| "ref_free_items ((k, v) # rest) = (ref_free v \<and> ref_free_items rest)"
| "ref_free_elems [] = True"
| "ref_free_elems (x # rest) = (ref_free x \<and> ref_free_elems rest)"

text \<open>
  \<open>reaches fs b d b' s\<close>: resolving \<open>d\<close> relative to \<open>b\<close> comes, unless it fails before, to a
  reference node with the relative path \<open>s\<close>, met while the current base is \<open>b'\<close>. The
  resolver goes down through the values of a mapping without \<^verbatim>\<open>$ref\<close>, through the elements
  of a list, and through the document of every file that a relative reference names, with
  the directory of that file as the new base. It never looks at the other items of a
  mapping that has \<^verbatim>\<open>$ref\<close>.
\<close>

inductive reaches :: "'p fsys \<Rightarrow> 'p \<Rightarrow> json \<Rightarrow> 'p \<Rightarrow> string \<Rightarrow> bool"
  for fs :: "'p fsys"
where
  node:
    "map_of kvs ''$ref'' = Some (JStr ref_path) \<Longrightarrow> is_relative ref_path \<Longrightarrow>
     reaches fs current_base (JObj kvs) current_base ref_path"
| through:
    "map_of kvs ''$ref'' = Some (JStr ref_path) \<Longrightarrow> is_relative ref_path \<Longrightarrow>
     files fs (join_path fs current_base ref_path) = Some (Document ref_data) \<Longrightarrow>
     reaches fs (parent_dir fs (join_path fs current_base ref_path)) ref_data base' ref_path' \<Longrightarrow>
     reaches fs current_base (JObj kvs) base' ref_path'"
| item:
    "map_of kvs ''$ref'' = None \<Longrightarrow> (k, v) \<in> set kvs \<Longrightarrow>
     reaches fs current_base v base' ref_path' \<Longrightarrow>
     reaches fs current_base (JObj kvs) base' ref_path'"
| elem:
    "x \<in> set xs \<Longrightarrow> reaches fs current_base x base' ref_path' \<Longrightarrow>
     reaches fs current_base (JArr xs) base' ref_path'"

code_pred reaches .

text \<open>
  \<open>reaches_first fs b d b' s\<close>: the same, and every value that the resolver visits before that
  node, in the order of the traversal, resolves to a document. So the node is the first
  place where resolution can fail.
\<close>

inductive
  reaches_first :: "'p fsys \<Rightarrow> 'p \<Rightarrow> json \<Rightarrow> 'p \<Rightarrow> string \<Rightarrow> bool" and
  reaches_first_items :: "'p fsys \<Rightarrow> 'p \<Rightarrow> (string \<times> json) list \<Rightarrow> 'p \<Rightarrow> string \<Rightarrow> bool" and
  reaches_first_elems :: "'p fsys \<Rightarrow> 'p \<Rightarrow> json list \<Rightarrow> 'p \<Rightarrow> string \<Rightarrow> bool"
  for fs :: "'p fsys"
where
  first_node:
    "map_of kvs ''$ref'' = Some (JStr ref_path) \<Longrightarrow> is_relative ref_path \<Longrightarrow>
     reaches_first fs current_base (JObj kvs) current_base ref_path"
| first_through:
    "map_of kvs ''$ref'' = Some (JStr ref_path) \<Longrightarrow> is_relative ref_path \<Longrightarrow>
     files fs (join_path fs current_base ref_path) = Some (Document ref_data) \<Longrightarrow>
     reaches_first fs (parent_dir fs (join_path fs current_base ref_path)) ref_data base' ref_path' \<Longrightarrow>
     reaches_first fs current_base (JObj kvs) base' ref_path'"
| first_mapping:
    "map_of kvs ''$ref'' = None \<Longrightarrow> reaches_first_items fs current_base kvs base' ref_path' \<Longrightarrow>
     reaches_first fs current_base (JObj kvs) base' ref_path'"
| first_sequence:
    "reaches_first_elems fs current_base xs base' ref_path' \<Longrightarrow>
     reaches_first fs current_base (JArr xs) base' ref_path'"
| first_item:
    "reaches_first fs current_base v base' ref_path' \<Longrightarrow>
     reaches_first_items fs current_base ((k, v) # rest) base' ref_path'"
| later_item:
    "spec_resolves fs current_base v (Inr v') \<Longrightarrow>
     reaches_first_items fs current_base rest base' ref_path' \<Longrightarrow>
     reaches_first_items fs current_base ((k, v) # rest) base' ref_path'"
| first_elem:
    "reaches_first fs current_base x base' ref_path' \<Longrightarrow>
     reaches_first_elems fs current_base (x # rest) base' ref_path'"
| later_elem:
    "spec_resolves fs current_base x (Inr x') \<Longrightarrow>
     reaches_first_elems fs current_base rest base' ref_path' \<Longrightarrow>
     reaches_first_elems fs current_base (x # rest) base' ref_path'"

code_pred reaches_first .

section \<open>Example documents\<close>

text \<open>A module with the three required fields and further items.\<close>

definition mk_module :: "string \<Rightarrow> (string \<times> json) list \<Rightarrow> json" where
  "mk_module n extra =
     JObj ([(''name'', JStr n), (''filepath'', JStr (n @ ''.v'')), (''docpath'', JStr (n @ ''.md''))]
           @ extra)"

text \<open>A root that lacks \<^verbatim>\<open>docpath\<close>, with a complete module below it.\<close>

definition wrapped_doc :: json where
  "wrapped_doc = JObj [(''name'', JStr ''top''), (''filepath'', JStr ''top.v''),
      (''submodules'', JArr [mk_module ''alu'' []])]"

text \<open>Two sub-modules of \<^verbatim>\<open>cpu\<close> are both called \<^verbatim>\<open>alu\<close>; only the second has a sub-module.\<close>

definition twin_doc :: json where
  "twin_doc = mk_module ''cpu'' [(''submodules'', JArr
      [mk_module ''alu'' [],
       mk_module ''alu'' [(''submodules'', mk_module ''adder'' [])],
       mk_module ''fpu'' []])]"

text \<open>A root module whose name is the empty string, with one sub-module.\<close>

definition nameless_root_doc :: json where
  "nameless_root_doc = mk_module [] [(''submodules'', JArr [mk_module ''alu'' []])]"

text \<open>
  Two different modules are called \<^verbatim>\<open>alu\<close>, one below \<^verbatim>\<open>core\<close> and one below \<^verbatim>\<open>gpu\<close>;
  each has a test case, and the second has a sub-module with a test case of its own.
\<close>

definition shared_name_doc :: json where
  "shared_name_doc = JObj [(''name'', JStr ''soc''), (''submodules'', JArr
     [JObj [(''name'', JStr ''core''), (''submodules'', JArr
        [JObj [(''name'', JStr ''alu''),
               (''test'', JObj [(''test_case'', JArr [JObj [(''name'', JStr ''add'')]])])]])],
      JObj [(''name'', JStr ''gpu''), (''submodules'', JArr
        [JObj [(''name'', JStr ''alu''),
               (''test'', JObj [(''test_case'', JArr [JObj [(''name'', JStr ''mul'')]])]),
               (''submodules'', JObj [(''name'', JStr ''shader''),
                  (''test'', JObj [(''test_case'', JArr [JObj [(''name'', JStr ''blend'')]])])])]])]])]"

text \<open>A chain of three nodes below a root named by the empty string; the last has a test case.\<close>

definition nameless_chain_doc :: json where
  "nameless_chain_doc = JObj [(''name'', JStr []), (''submodules'',
     JObj [(''name'', JStr ''a''), (''submodules'',
       JObj [(''name'', JStr ''b''),
             (''test'', JObj [(''test_case'', JArr [JObj [(''run_cmd'', JStr ''make'')]])])])])]"



text \<open>
  File systems for the examples: paths are strings, \<open>posix_join\<close> and \<open>posix_parent\<close> do what
  \<^verbatim>\<open>base / ref\<close> and \<^verbatim>\<open>.parent\<close> of \<^verbatim>\<open>pathlib\<close> do on the paths used here (a leading
  \<^verbatim>\<open>./\<close> of the reference disappears in the join).
\<close>

definition posix_join :: "string \<Rightarrow> string \<Rightarrow> string" where
  "posix_join base ref_path =
     base @ ''/'' @ (if take 2 ref_path = ''./'' then drop 2 ref_path else ref_path)"

definition posix_parent :: "string \<Rightarrow> string" where
  "posix_parent p = rev (tl (dropWhile (\<lambda>c. c \<noteq> CHR ''/'') (rev p)))"

definition string_fs :: "(string \<times> file_text) list \<Rightarrow> string fsys" where
  "string_fs fl = \<lparr>files = map_of fl, join_path = posix_join, parent_dir = posix_parent\<rparr>"

text \<open>
  A root whose reference is not relative, with a relative reference among its other items;
  \<^verbatim>\<open>proj/cpu.json\<close> does not exist.
\<close>

definition opaque_doc :: json where
  "opaque_doc = JObj [(''$ref'', JStr ''https://example.org/cpu.json''),
                      (''fallback'', JObj [(''$ref'', JStr ''./cpu.json'')])]"

definition opaque_fs :: "string fsys" where
  "opaque_fs = string_fs [(''proj/root.json'', Document opaque_doc)]"

text \<open>Three files in a chain; the second lies in a sub-directory and refers to its neighbour.\<close>

definition chain_fs :: "string fsys" where
  "chain_fs = string_fs
     [(''proj/root.json'', Document (mk_module ''cpu''
         [(''submodules'', JArr [JObj [(''$ref'', JStr ''./alu/alu.json'')]])])),
      (''proj/alu/alu.json'', Document (mk_module ''alu''
         [(''submodules'', JObj [(''$ref'', JStr ''./adder.json'')])])),
      (''proj/alu/adder.json'', Document (mk_module ''adder'' []))]"

text \<open>A reference node with a further item, and its target.\<close>

definition sibling_node :: "(string \<times> json) list" where
  "sibling_node = [(''$ref'', JStr ''./alu.json''), (''name'', JStr ''shadowed'')]"

definition sibling_fs :: "string fsys" where
  "sibling_fs = string_fs
     [(''proj/root.json'', Document (JObj sibling_node)),
      (''proj/alu.json'', Document (mk_module ''alu'' []))]"

text \<open>
  A reference node with an existing target, and among its other items a relative
  reference to a file that does not exist.
\<close>

definition dropped_doc :: json where
  "dropped_doc = JObj [(''$ref'', JStr ''./alu.json''),
                       (''extra'', JObj [(''$ref'', JStr ''./missing.json'')])]"

definition dropped_fs :: "string fsys" where
  "dropped_fs = string_fs
     [(''proj/root.json'', Document dropped_doc),
      (''proj/alu.json'', Document (mk_module ''alu'' []))]"

text \<open>
  The chain with its last file missing: the root refers to \<^verbatim>\<open>alu/alu.json\<close>, which refers to
  \<^verbatim>\<open>adder.json\<close> beside it, and \<^verbatim>\<open>proj/alu/adder.json\<close> does not exist.
\<close>

definition cut_chain_doc :: json where
  "cut_chain_doc = mk_module ''cpu'' [(''submodules'', JArr [JObj [(''$ref'', JStr ''./alu/alu.json'')]])]"

definition cut_chain_fs :: "string fsys" where
  "cut_chain_fs = string_fs
     [(''proj/root.json'', Document cut_chain_doc),
      (''proj/alu/alu.json'', Document (mk_module ''alu''
         [(''submodules'', JObj [(''$ref'', JStr ''./adder.json'')])]))]"

text \<open>
  Two references in a list: the file of the first does not parse, the file of the second
  does not exist.
\<close>

definition preempted_doc :: json where
  "preempted_doc = mk_module ''cpu'' [(''submodules'',
     JArr [JObj [(''$ref'', JStr ''./bad.json'')], JObj [(''$ref'', JStr ''./missing.json'')]])]"

definition preempted_fs :: "string fsys" where
  "preempted_fs = string_fs
     [(''proj/root.json'', Document preempted_doc),
      (''proj/bad.json'', Malformed)]"

text \<open>
  Oracles for the validator: a loader that reads the schema and is denied anything else, a
  resolver that overflows the stack, and an engine that reports a violation.
\<close>

definition denied_load :: "string \<Rightarrow> exc + json" where
  "denied_load p = (if p = ''schema.json'' then Inr (JObj [])
                    else Inl (OtherException ''[Errno 13] Permission denied''))"

definition overflowing_load :: "string \<Rightarrow> exc + json" where
  "overflowing_load p = Inl (OtherException ''maximum recursion depth exceeded'')"

definition no_engine :: "json \<Rightarrow> json \<Rightarrow> exc + unit" where
  "no_engine schema data = Inl (Validation [Key ''submodules'', Index 0] ''not an object'' ''...'')"

section \<open>Properties of the module extractor\<close>

lemma extract_modules_not_module:
  "\<not> is_module data \<Longrightarrow> extract_modules data parent_name visited = Inr ([], visited)"
  by (cases data) (simp_all add: extract_modules.simps del: is_module.simps)

lemma extract_modules_Inr_cases [consumes 1, case_names skip dup leaf list single]:
  assumes "extract_modules data p V = Inr (ms, V')"
  obtains
    (skip) "\<not> is_module data" "ms = []" "V' = V"
  | (dup) kvs n where "data = JObj kvs" "is_module data" "map_of kvs ''name'' = Some (JStr n)"
      "child_path p n \<in> V" "ms = []" "V' = V"
  | (leaf) kvs n where "data = JObj kvs" "is_module data" "map_of kvs ''name'' = Some (JStr n)"
      "child_path p n \<notin> V" "ms = [make_module_info kvs n p]" "V' = insert (child_path p n) V"
  | (list) kvs n subs ms' where "data = JObj kvs" "is_module data" "map_of kvs ''name'' = Some (JStr n)"
      "child_path p n \<notin> V" "map_of kvs ''submodules'' = Some (JArr subs)"
      "extract_modules_each subs (child_path p n) (insert (child_path p n) V) = Inr (ms', V')"
      "ms = make_module_info kvs n p # ms'"
  | (single) kvs n sub ms' where "data = JObj kvs" "is_module data" "map_of kvs ''name'' = Some (JStr n)"
      "child_path p n \<notin> V" "map_of kvs ''submodules'' = Some (JObj sub)" "sub \<noteq> []"
      "extract_modules (JObj sub) (child_path p n) (insert (child_path p n) V) = Inr (ms', V')"
      "ms = make_module_info kvs n p # ms'"
proof (cases "is_module data")
  case False
  with assms show ?thesis
    by (intro skip) (simp_all add: extract_modules_not_module)
next
  case True
  then obtain kvs where d: "data = JObj kvs" by (cases data) simp_all
  from True d have hk: "has_key ''name'' kvs" by simp
  then obtain v where v: "map_of kvs ''name'' = Some v" by (auto simp: has_key_def)
  note eqn = extract_modules.simps(1)[of kvs p V]
  from assms d True v obtain n where n: "v = JStr n"
    by (cases v) (simp_all del: is_module.simps add: eqn)
  show ?thesis
  proof (cases "child_path p n \<in> V")
    case True
    with assms d \<open>is_module data\<close> v n show ?thesis
      by (intro dup[of kvs n]) (simp_all del: is_module.simps add: eqn)
  next
    case False
    note nv = False
    show ?thesis
    proof (cases "map_of kvs ''submodules''")
      case None
      with assms d \<open>is_module data\<close> v n nv show ?thesis
        by (intro leaf[of kvs n]) (simp_all del: is_module.simps add: eqn Let_def)
    next
      case (Some s)
      show ?thesis
      proof (cases s)
        case (JArr subs)
        with assms d \<open>is_module data\<close> v n nv Some obtain ms' where
          "extract_modules_each subs (child_path p n) (insert (child_path p n) V) = Inr (ms', V')"
          "ms = make_module_info kvs n p # ms'"
          by (auto simp del: is_module.simps simp: eqn Let_def split: sum.splits)
        with d \<open>is_module data\<close> v n nv Some JArr show ?thesis
          by (intro list[of kvs n subs ms']) simp_all
      next
        case (JObj sub)
        show ?thesis
        proof (cases "sub = []")
          case True
          with assms d \<open>is_module data\<close> v n nv Some JObj show ?thesis
            by (intro leaf[of kvs n]) (simp_all del: is_module.simps add: eqn Let_def)
        next
          case False
          with assms d \<open>is_module data\<close> v n nv Some JObj obtain ms' where
            "extract_modules (JObj sub) (child_path p n) (insert (child_path p n) V) = Inr (ms', V')"
            "ms = make_module_info kvs n p # ms'"
            by (auto simp del: is_module.simps simp: eqn Let_def split: sum.splits)
          with d \<open>is_module data\<close> v n nv Some JObj False show ?thesis
            by (intro single[of kvs n sub ms']) simp_all
        qed
      qed (use assms d \<open>is_module data\<close> v n nv Some in
            \<open>(intro leaf[of kvs n]; simp del: is_module.simps add: eqn Let_def)+\<close>)
    qed
  qed
qed

lemma extract_modules_each_Cons_cases [consumes 1, case_names walk pass]:
  assumes "extract_modules_each (s # rest) p V = Inr (ms, V')"
  obtains
    (walk) ms1 V1 ms2 where "is_dict s" "extract_modules s p V = Inr (ms1, V1)"
      "extract_modules_each rest p V1 = Inr (ms2, V')" "ms = ms1 @ ms2"
  | (pass) "\<not> is_dict s" "extract_modules_each rest p V = Inr (ms, V')"
  using assms by (auto simp: extract_modules.simps split: if_splits sum.splits)

lemma extract_modules_visited:
  "extract_modules data p V = Inr (ms, V') \<Longrightarrow>
     distinct (map full_path ms) \<and> set (map full_path ms) \<inter> V = {} \<and> V' = V \<union> set (map full_path ms)"
  "extract_modules_each subs p V = Inr (ms, V') \<Longrightarrow>
     distinct (map full_path ms) \<and> set (map full_path ms) \<inter> V = {} \<and> V' = V \<union> set (map full_path ms)"
proof (induction data p V and subs p V arbitrary: ms V' and ms V' rule: extract_modules_extract_modules_each.induct)
  case (1 kvs parent_name visited)
  from "1.prems" show ?case
  proof (cases rule: extract_modules_Inr_cases)
    case (list kvs' n subs ms')
    with "1.IH"(1)[of "JStr n" n _ _ _ "JArr subs" subs ms' V']
    have "distinct (map full_path ms') \<and>
          set (map full_path ms') \<inter> insert (child_path parent_name n) visited = {} \<and>
          V' = insert (child_path parent_name n) visited \<union> set (map full_path ms')"
      by simp
    with list show ?thesis by (auto simp: make_module_info_def)
  next
    case (single kvs' n sub ms')
    with "1.IH"(2)[of "JStr n" n _ _ _ "JObj sub" sub ms' V']
    have "distinct (map full_path ms') \<and>
          set (map full_path ms') \<inter> insert (child_path parent_name n) visited = {} \<and>
          V' = insert (child_path parent_name n) visited \<union> set (map full_path ms')"
      by simp
    with single show ?thesis by (auto simp: make_module_info_def)
  qed (auto simp: make_module_info_def)
next
  case (4 submodule rest parent_name visited)
  from "4.prems" show ?case
  proof (cases rule: extract_modules_each_Cons_cases)
    case (walk ms1 V1 ms2)
    from "4.IH"(1)[OF walk(1) walk(2)] have a: "distinct (map full_path ms1)"
      "set (map full_path ms1) \<inter> visited = {}" "V1 = visited \<union> set (map full_path ms1)"
      by simp_all
    from "4.IH"(2)[OF walk(1) walk(2) refl walk(3)] have b: "distinct (map full_path ms2)"
      "set (map full_path ms2) \<inter> V1 = {}" "V' = V1 \<union> set (map full_path ms2)"
      by simp_all
    from a b walk(4) show ?thesis by auto
  next
    case pass
    with "4.IH"(3) show ?thesis by simp
  qed
qed (simp_all add: extract_modules.simps)

subsection \<open>Induction over the module tree\<close>

lemma submodule_induct [case_names node]:
  assumes "\<And>d. (\<And>c. c \<in> set (submodule_nodes d) \<Longrightarrow> P c) \<Longrightarrow> P d"
  shows "P d"
proof (induction d rule: measure_induct_rule[where f = size])
  case (less d)
  show ?case by (rule assms) (rule less, rule size_submodule_nodes)
qed

lemma str_names_nodes: "str_names d \<Longrightarrow> c \<in> set (submodule_nodes d) \<Longrightarrow> str_names c"
proof (cases d)
  case (JObj kvs)
  assume "str_names d" "c \<in> set (submodule_nodes d)"
  with JObj show ?thesis by (simp add: list_all_iff del: submodule_nodes.simps)
qed simp_all

lemma str_names_name:
  "str_names (JObj kvs) \<Longrightarrow> map_of kvs ''name'' = Some v \<Longrightarrow> \<exists>n. v = JStr n"
  by (cases v) (simp_all del: submodule_nodes.simps)

subsection \<open>A node and the loop over its sub-modules\<close>

lemma extract_modules_each_filter:
  "extract_modules_each (filter is_dict subs) p V = extract_modules_each subs p V"
  by (induction subs arbitrary: V) (auto simp: extract_modules.simps split: sum.splits)

lemma extract_modules_each_single:
  "extract_modules_each [JObj sub] p V = extract_modules (JObj sub) p V"
  by (cases "extract_modules (JObj sub) p V") (auto simp: extract_modules_each.simps)

lemma extract_modules_dup:
  "is_module (JObj kvs) \<Longrightarrow> map_of kvs ''name'' = Some (JStr n) \<Longrightarrow> child_path p n \<in> V \<Longrightarrow>
   extract_modules (JObj kvs) p V = Inr ([], V)"
  by (simp add: extract_modules.simps(1) del: is_module.simps)

lemma extract_modules_node:
  assumes "is_module (JObj kvs)" "map_of kvs ''name'' = Some (JStr n)" "child_path p n \<notin> V"
  shows "extract_modules (JObj kvs) p V =
     (case extract_modules_each (submodule_nodes (JObj kvs)) (child_path p n) (insert (child_path p n) V) of
        Inl e \<Rightarrow> Inl e
      | Inr (ms, V') \<Rightarrow> Inr (make_module_info kvs n p # ms, V'))"
proof -
  note eqn = extract_modules.simps(1)[of kvs p V]
  show ?thesis
  proof (cases "map_of kvs ''submodules''")
    case None
    with assms show ?thesis
      by (simp add: eqn Let_def del: is_module.simps)
  next
    case (Some s)
    show ?thesis
    proof (cases s)
      case (JArr subs)
      with assms Some show ?thesis
        by (simp add: eqn Let_def extract_modules_each_filter del: is_module.simps)
    next
      case (JObj sub)
      with assms Some show ?thesis
        by (cases "sub = []")
           (simp_all add: eqn Let_def extract_modules_each_single del: is_module.simps extract_modules_each.simps(2))
    qed (use assms Some in \<open>simp_all add: eqn Let_def del: is_module.simps\<close>)
  qed
qed

lemma extract_modules_each_total:
  assumes "\<And>c p V. c \<in> set cs \<Longrightarrow> \<exists>ms V'. extract_modules c p V = Inr (ms, V')"
  shows "\<exists>ms V'. extract_modules_each cs p V = Inr (ms, V')"
  using assms
proof (induction cs arbitrary: V)
  case Nil
  then show ?case by simp
next
  case (Cons c cs)
  from Cons.prems[of c p V] obtain ms1 V1 where a: "extract_modules c p V = Inr (ms1, V1)"
    by auto
  from Cons.IH[of V1] Cons.prems obtain ms2 V2 where b: "extract_modules_each cs p V1 = Inr (ms2, V2)"
    by auto
  from Cons.IH[of V] Cons.prems obtain ms3 V3 where c: "extract_modules_each cs p V = Inr (ms3, V3)"
    by auto
  from a b c show ?case by simp
qed

lemma extract_modules_total:
  "str_names d \<Longrightarrow> \<exists>ms V'. extract_modules d p V = Inr (ms, V')"
proof (induction d arbitrary: p V rule: submodule_induct)
  case (node d)
  show ?case
  proof (cases "is_module d")
    case False
    then show ?thesis by (simp add: extract_modules_not_module)
  next
    case True
    then obtain kvs where d: "d = JObj kvs" by (cases d) simp_all
    from True d obtain v where v: "map_of kvs ''name'' = Some v" by (auto simp: has_key_def)
    from str_names_name[OF node.prems[unfolded d] v] obtain n where n: "v = JStr n" ..
    show ?thesis
    proof (cases "child_path p n \<in> V")
      case True
      with \<open>is_module d\<close> d v n show ?thesis by (simp add: extract_modules_dup del: is_module.simps)
    next
      case False
      have "\<exists>ms V'. extract_modules_each (submodule_nodes d) (child_path p n) (insert (child_path p n) V) = Inr (ms, V')"
        by (rule extract_modules_each_total) (rule node.IH, assumption, rule str_names_nodes[OF node.prems])
      with extract_modules_node[OF True[unfolded d] v[unfolded n] False] d show ?thesis
        by auto
    qed
  qed
qed

lemma extract_modules_each_walk:
  assumes "\<And>c p V ms V' pending. c \<in> set cs \<Longrightarrow> extract_modules c p V = Inr (ms, V') \<Longrightarrow>
             spec_walk module_entry ((p, c) # pending) V = ms @ spec_walk module_entry pending V'"
    and "extract_modules_each cs p V = Inr (ms, V')"
  shows "spec_walk module_entry (map (Pair p) cs @ pending) V =
           ms @ spec_walk module_entry pending V'"
  using assms
proof (induction cs arbitrary: V ms)
  case Nil
  then show ?case by simp
next
  case (Cons c cs)
  from Cons.prems(2) show ?case
  proof (cases rule: extract_modules_each_Cons_cases)
    case (walk ms1 V1 ms2)
    from Cons.prems(1)[OF _ walk(2), of "map (Pair p) cs @ pending"]
    have "spec_walk module_entry ((p, c) # map (Pair p) cs @ pending) V =
            ms1 @ spec_walk module_entry (map (Pair p) cs @ pending) V1" by simp
    moreover from Cons.IH[OF _ walk(3)] Cons.prems(1)
    have "spec_walk module_entry (map (Pair p) cs @ pending) V1 =
            ms2 @ spec_walk module_entry pending V'" by simp
    ultimately show ?thesis using walk(4) by simp
  next
    case pass
    then have "module_entry p c = None" by (cases c) simp_all
    then have "spec_walk module_entry ((p, c) # map (Pair p) cs @ pending) V =
            spec_walk module_entry (map (Pair p) cs @ pending) V"
      by (simp add: spec_walk.simps)
    moreover from Cons.IH[OF _ pass(2)] Cons.prems(1)
    have "spec_walk module_entry (map (Pair p) cs @ pending) V =
            ms @ spec_walk module_entry pending V'" by simp
    ultimately show ?thesis by simp
  qed
qed

lemma extract_modules_walk:
  "extract_modules d p V = Inr (ms, V') \<Longrightarrow>
   spec_walk module_entry ((p, d) # pending) V = ms @ spec_walk module_entry pending V'"
proof (induction d arbitrary: p V ms V' pending rule: submodule_induct)
  case (node d)
  show ?case
  proof (cases "module_entry p d")
    case None
    have "ms = [] \<and> V' = V"
      using node.prems
    proof (cases rule: extract_modules_Inr_cases)
      case skip
      then show ?thesis by simp
    qed (use None in \<open>simp_all del: is_module.simps\<close>)
    with None show ?thesis by (simp add: spec_walk.simps)
  next
    case (Some e)
    then obtain kvs n where d: "d = JObj kvs" and m: "is_module (JObj kvs)"
      and n: "map_of kvs ''name'' = Some (JStr n)"
      and e: "e = (child_path p n, [make_module_info kvs n p], child_path p n)"
      by (cases d) (auto split: if_splits option.splits json.splits simp del: is_module.simps)
    show ?thesis
    proof (cases "child_path p n \<in> V")
      case True
      with node.prems d extract_modules_dup[OF m n True] Some e show ?thesis
        by (simp add: spec_walk.simps)
    next
      case False
      from node.prems extract_modules_node[OF m n False] d obtain ms' where
        sub: "extract_modules_each (submodule_nodes d) (child_path p n) (insert (child_path p n) V) = Inr (ms', V')"
        and ms: "ms = make_module_info kvs n p # ms'"
        by (auto split: sum.splits)
      from extract_modules_each_walk[OF node.IH sub, of pending]
      have "spec_walk module_entry (map (Pair (child_path p n)) (submodule_nodes d) @ pending)
              (insert (child_path p n) V) = ms' @ spec_walk module_entry pending V'"
        by simp
      with Some e False ms show ?thesis by (simp add: spec_walk.simps)
    qed
  qed
qed

text \<open>
  C10. A value that is not a mapping holding all of \<^verbatim>\<open>name\<close>, \<^verbatim>\<open>filepath\<close> and \<^verbatim>\<open>docpath\<close>
  yields no record, whatever is nested inside it, and leaves the visited set alone: the
  extractor only ever descends through the \<^verbatim>\<open>submodules\<close> of a node that qualified.
\<close>

theorem extract_modules_non_module_empty:
  "\<not> is_module data \<Longrightarrow> extract_modules data parent_name visited = Inr ([], visited)"
  by (cases data) (simp_all add: extract_modules.simps del: is_module.simps)

theorem extract_modules_non_module_empty_witness:
  "\<not> is_module wrapped_doc \<and> extract_modules wrapped_doc [] {} = Inr ([], {})"
proof -
  have h: "\<not> is_module wrapped_doc"
    by (simp add: wrapped_doc_def has_key_def)
  from h extract_modules_non_module_empty [OF h, of "[]" "{}"] show ?thesis by simp
qed

text \<open>
  C1. On a document whose names are strings \<open>extract_modules\<close> returns, and what it returns
  is the list of the pre-order traversal that keeps the first occurrence of every full
  path: \<open>spec_walk module_entry\<close> started on the document alone. So of two sub-modules with
  the same full path the one that stands first in the list of its parent is kept, and the
  later one is dropped with everything below it. The records carry pairwise different full
  paths, none of them visited before the call, and the visited set grows by exactly these
  paths. A module whose full path is already visited yields no record and no descent and
  leaves the set alone; otherwise its own record comes first in the result.
\<close>

theorem extract_modules_dedup_full_path:
  assumes "str_names data"
  shows "\<exists>modules visited'.
           extract_modules data parent_name visited = Inr (modules, visited') \<and>
           modules = spec_walk module_entry [(parent_name, data)] visited \<and>
           distinct (map full_path modules) \<and>
           set (map full_path modules) \<inter> visited = {} \<and>
           visited' = visited \<union> set (map full_path modules) \<and>
           (\<forall>kvs module_name.
              data = JObj kvs \<and> is_module data \<and> map_of kvs ''name'' = Some (JStr module_name) \<longrightarrow>
              (if child_path parent_name module_name \<in> visited
               then modules = [] \<and> visited' = visited
               else modules \<noteq> [] \<and> hd modules = make_module_info kvs module_name parent_name))"
proof -
  from extract_modules_total[OF assms, of parent_name visited] obtain modules visited' where
    e: "extract_modules data parent_name visited = Inr (modules, visited')" by blast
  from extract_modules_walk[OF e, of "[]"]
  have w: "modules = spec_walk module_entry [(parent_name, data)] visited"
    by (simp add: spec_walk.simps(1))
  have "\<forall>kvs module_name.
            data = JObj kvs \<and> is_module data \<and> map_of kvs ''name'' = Some (JStr module_name) \<longrightarrow>
            (if child_path parent_name module_name \<in> visited
             then modules = [] \<and> visited' = visited
             else modules \<noteq> [] \<and> hd modules = make_module_info kvs module_name parent_name)"
    using e by (cases rule: extract_modules_Inr_cases) auto
  with extract_modules_visited(1)[OF e] e w show ?thesis by blast
qed

text \<open>
  The two sub-modules called \<^verbatim>\<open>alu\<close> of the example: the first, which has no sub-module, is
  the one kept, and \<^verbatim>\<open>adder\<close> below the second is never reached.
\<close>

theorem extract_modules_dedup_full_path_witness:
  "str_names twin_doc \<and>
   (\<exists>modules visited'. extract_modules twin_doc [] {} = Inr (modules, visited') \<and>
      map full_path modules = [''cpu'', ''cpu/alu'', ''cpu/fpu''] \<and>
      map has_submodules modules = [True, False, False] \<and>
      visited' = {''cpu'', ''cpu/alu'', ''cpu/fpu''})"
proof -
  have s: "str_names twin_doc"
    by (simp add: twin_doc_def mk_module_def)
  from extract_modules_dedup_full_path [OF s, of "[]" "{}"] obtain modules visited' where
    e: "extract_modules twin_doc [] {} = Inr (modules, visited')"
    and w: "modules = spec_walk module_entry [([], twin_doc)] {}"
    and v: "visited' = {} \<union> set (map full_path modules)" by blast
  have "map full_path (spec_walk module_entry [([], twin_doc)] {}) = [''cpu'', ''cpu/alu'', ''cpu/fpu''] \<and>
        map has_submodules (spec_walk module_entry [([], twin_doc)] {}) = [True, False, False]"
    by (simp add: twin_doc_def mk_module_def spec_walk.simps has_key_def dict_get_def
        child_path_def make_module_info_def)
  with w have m: "map full_path modules = [''cpu'', ''cpu/alu'', ''cpu/fpu'']"
    "map has_submodules modules = [True, False, False]" by simp_all
  with v have vv: "visited' = {''cpu'', ''cpu/alu'', ''cpu/fpu''}" by simp
  show ?thesis by (intro conjI exI[of _ modules] exI[of _ visited'] s e m vv)
qed

subsection \<open>Full paths follow the tree\<close>

lemma descend_Cons: "descend p (n # ns) = descend (child_path p n) ns"
  by (simp add: descend_def)

lemma descend_snoc: "descend p (ns @ [n]) = child_path (descend p ns) n"
  by (simp add: descend_def)

lemma child_path_nonempty: "p \<noteq> [] \<Longrightarrow> child_path p n \<noteq> []"
  by (simp add: child_path_def)

lemma descend_nonempty: "p \<noteq> [] \<Longrightarrow> descend p ns \<noteq> []"
  by (induction ns arbitrary: p) (simp_all add: descend_def child_path_nonempty)

lemma join_slash_snoc: "ns \<noteq> [] \<Longrightarrow> join_slash (ns @ [n]) = join_slash ns @ ''/'' @ n"
  by (induction ns rule: join_slash.induct) simp_all

lemma descend_join_slash:
  "ns \<noteq> [] \<Longrightarrow> hd ns \<noteq> [] \<Longrightarrow> descend [] ns = join_slash ns"
proof (induction ns rule: rev_induct)
  case Nil
  then show ?case by simp
next
  case (snoc n ns)
  show ?case
  proof (cases "ns = []")
    case True
    then show ?thesis by (simp add: descend_def child_path_def)
  next
    case False
    with snoc have ih: "descend [] ns = join_slash ns" and h: "hd ns \<noteq> []" by simp_all
    from False h have "descend [] ns \<noteq> []"
      by (cases ns) (simp_all add: descend_Cons descend_nonempty child_path_def)
    with ih False show ?thesis
      by (simp add: descend_snoc join_slash_snoc child_path_def)
  qed
qed

lemma placed_mono: "placed d p ms' r \<Longrightarrow> set ms' \<subseteq> set ms \<Longrightarrow> placed d p ms r"
  unfolding placed_def by blast

lemma placed_down:
  assumes "node_name d = Some n" "c \<in> set (submodule_nodes d)"
    and "placed c (child_path p n) ms' r"
    and "set ms' \<subseteq> set ms" "r0 \<in> set ms" "full_path r0 = child_path p n" "name r0 = n"
  shows "placed d p ms r"
proof -
  from assms(3) obtain ns kvs n' where l: "lineage c ns (JObj kvs)" and m: "is_module (JObj kvs)"
    and nm: "map_of kvs ''name'' = Some (JStr n')"
    and r: "r = make_module_info kvs n' (descend (child_path p n) ns)"
    and par: "ns = [] \<or> (\<exists>r' \<in> set ms'. full_path r' = descend (child_path p n) ns \<and> name r' = last ns)"
    unfolding placed_def by blast
  from assms(1,2) l have "lineage d (n # ns) (JObj kvs)" by (rule lineage.down)
  moreover from r have "r = make_module_info kvs n' (descend p (n # ns))"
    by (simp add: descend_Cons)
  moreover have "\<exists>r' \<in> set ms. full_path r' = descend p (n # ns) \<and> name r' = last (n # ns)"
  proof (cases "ns = []")
    case True
    with assms(5,6,7) show ?thesis by (auto simp: descend_def)
  next
    case False
    with par assms(4) show ?thesis by (auto simp: descend_Cons)
  qed
  ultimately show ?thesis using m nm unfolding placed_def by blast
qed

lemma extract_modules_placed:
  "extract_modules data p V = Inr (ms, V') \<Longrightarrow> r \<in> set ms \<Longrightarrow> placed data p ms r"
  "extract_modules_each subs p V = Inr (ms, V') \<Longrightarrow> r \<in> set ms \<Longrightarrow>
     \<exists>c \<in> set (filter is_dict subs). placed c p ms r"
proof (induction data p V and subs p V arbitrary: ms V' r and ms V' r
       rule: extract_modules_extract_modules_each.induct)
  case (1 kvs parent_name visited)
  from "1.prems"(1) show ?case
  proof (cases rule: extract_modules_Inr_cases)
    case skip
    with "1.prems" show ?thesis by simp
  next
    case (dup kvs' n)
    with "1.prems" show ?thesis by simp
  next
    case (leaf kvs' n)
    with "1.prems" have "r = make_module_info kvs n (descend parent_name [])"
      by (simp add: descend_def)
    with leaf show ?thesis unfolding placed_def
      by (intro exI[of _ "[]"] exI[of _ kvs] exI[of _ n]) (simp add: lineage.here)
  next
    case (list kvs' n subs ms')
    let ?r0 = "make_module_info kvs n parent_name"
    show ?thesis
    proof (cases "r = ?r0")
      case True
      then have "r = make_module_info kvs n (descend parent_name [])" by (simp add: descend_def)
      with list show ?thesis unfolding placed_def
        by (intro exI[of _ "[]"] exI[of _ kvs] exI[of _ n]) (simp add: lineage.here)
    next
      case False
      with list "1.prems" have rin: "r \<in> set ms'" by simp
      from list have f: "is_module (JObj kvs)" "map_of kvs ''name'' = Some (JStr n)"
        "child_path parent_name n \<notin> visited" "map_of kvs ''submodules'' = Some (JArr subs)"
        "extract_modules_each subs (child_path parent_name n)
           (insert (child_path parent_name n) visited) = Inr (ms', V')"
        by simp_all
      from "1.IH"(1)[OF f(1) f(2) refl refl f(3) refl refl f(4) refl f(5) rin]
      obtain c where c: "c \<in> set (filter is_dict subs)"
        and pl: "placed c (child_path parent_name n) ms' r"
        by auto
      from list have nn: "node_name (JObj kvs) = Some n" by simp
      from list c have cs: "c \<in> set (submodule_nodes (JObj kvs))" by simp
      from list have s2: "set ms' \<subseteq> set ms" by auto
      from list have r0: "?r0 \<in> set ms" by simp
      show ?thesis
        by (rule placed_down[OF nn cs pl s2 r0]) (simp_all add: make_module_info_def)
    qed
  next
    case (single kvs' n sub ms')
    let ?r0 = "make_module_info kvs n parent_name"
    show ?thesis
    proof (cases "r = ?r0")
      case True
      then have "r = make_module_info kvs n (descend parent_name [])" by (simp add: descend_def)
      with single show ?thesis unfolding placed_def
        by (intro exI[of _ "[]"] exI[of _ kvs] exI[of _ n]) (simp add: lineage.here)
    next
      case False
      with single "1.prems" have rin: "r \<in> set ms'" by simp
      from single have f: "is_module (JObj kvs)" "map_of kvs ''name'' = Some (JStr n)"
        "child_path parent_name n \<notin> visited" "map_of kvs ''submodules'' = Some (JObj sub)"
        "sub \<noteq> []"
        "extract_modules (JObj sub) (child_path parent_name n)
           (insert (child_path parent_name n) visited) = Inr (ms', V')"
        by simp_all
      from "1.IH"(2)[OF f(1) f(2) refl refl f(3) refl refl f(4) refl f(5) f(6) rin]
      have pl: "placed (JObj sub) (child_path parent_name n) ms' r" .
      from single have nn: "node_name (JObj kvs) = Some n" by simp
      from single have cs: "JObj sub \<in> set (submodule_nodes (JObj kvs))" by simp
      from single have s2: "set ms' \<subseteq> set ms" by auto
      from single have r0: "?r0 \<in> set ms" by simp
      show ?thesis
        by (rule placed_down[OF nn cs pl s2 r0]) (simp_all add: make_module_info_def)
    qed
  qed
next
  case (4 submodule rest parent_name visited)
  from "4.prems"(1) show ?case
  proof (cases rule: extract_modules_each_Cons_cases)
    case (walk ms1 V1 ms2)
    show ?thesis
    proof (cases "r \<in> set ms1")
      case True
      from "4.IH"(1)[OF walk(1) walk(2) True] have "placed submodule parent_name ms1 r" .
      then have "placed submodule parent_name ms r"
        by (rule placed_mono) (use walk in simp)
      with walk(1) show ?thesis by simp
    next
      case False
      with walk "4.prems" have "r \<in> set ms2" by simp
      from "4.IH"(2)[OF walk(1) walk(2) refl walk(3) this]
      obtain c where "c \<in> set (filter is_dict rest)" "placed c parent_name ms2 r" by blast
      moreover from this(2) have "placed c parent_name ms r"
        by (rule placed_mono) (use walk in simp)
      ultimately show ?thesis by auto
    qed
  next
    case pass
    from "4.IH"(3)[OF pass "4.prems"(2)] show ?thesis by auto
  qed
qed (simp_all add: extract_modules.simps)

text \<open>
  C3, as the code has it. Every record belongs to a module found below the starting node
  through a chain of ancestors \<open>ns\<close>. With \<open>up\<close> the path accumulated along that chain
  (the full path of the module's parent, whose record is in the result; for the starting
  node, the \<^verbatim>\<open>parent_name\<close> argument): the record's full path is \<open>up\<close>, a slash and the
  module's own name when \<open>up\<close> is not empty, and the bare name when \<open>up\<close> is empty. The
  second case covers a root-level module, and also the child of a module whose full path
  is the empty string. From an empty \<^verbatim>\<open>parent_name\<close> and with a non-empty first name, the
  full path is the slash-joined chain of names.
\<close>

theorem extract_modules_full_path:
  assumes "extract_modules data parent_name visited = Inr (modules, visited')"
    and "r \<in> set modules"
  shows "\<exists>ns kvs. lineage data ns (JObj kvs) \<and> is_module (JObj kvs) \<and>
      map_of kvs ''name'' = Some (JStr (name r)) \<and>
      (let up = descend parent_name ns in
         full_path r = (if up = [] then name r else up @ ''/'' @ name r) \<and>
         parent r = (if up = [] then None else Some up) \<and>
         (ns = [] \<or> (\<exists>r' \<in> set modules. name r' = last ns \<and> full_path r' = up)) \<and>
         (parent_name = [] \<and> hd (ns @ [name r]) \<noteq> [] \<longrightarrow>
            full_path r = join_slash (ns @ [name r])))"
proof -
  from extract_modules_placed(1)[OF assms] obtain ns kvs n where
    l: "lineage data ns (JObj kvs)" and m: "is_module (JObj kvs)"
    and nm: "map_of kvs ''name'' = Some (JStr n)"
    and r: "r = make_module_info kvs n (descend parent_name ns)"
    and par: "ns = [] \<or> (\<exists>r' \<in> set modules. full_path r' = descend parent_name ns \<and> name r' = last ns)"
    unfolding placed_def by blast
  from r have nr: "name r = n" and fp: "full_path r = child_path (descend parent_name ns) n"
    and pr: "parent r = (if descend parent_name ns = [] then None else Some (descend parent_name ns))"
    by (simp_all add: make_module_info_def)
  have js: "full_path r = join_slash (ns @ [n])" if "parent_name = []" "hd (ns @ [n]) \<noteq> []"
  proof -
    from that have "descend [] (ns @ [n]) = join_slash (ns @ [n])"
      by (intro descend_join_slash) simp_all
    with fp that show ?thesis by (simp add: descend_snoc)
  qed
  have a: "full_path r = (if descend parent_name ns = [] then name r
            else descend parent_name ns @ ''/'' @ name r)"
    using fp nr by (simp add: child_path_def)
  have b: "ns = [] \<or> (\<exists>r' \<in> set modules. name r' = last ns \<and> full_path r' = descend parent_name ns)"
    using par by blast
  have c: "parent_name = [] \<and> hd (ns @ [name r]) \<noteq> [] \<longrightarrow>
            full_path r = join_slash (ns @ [name r])"
    using js nr by blast
  from nm nr have nm': "map_of kvs ''name'' = Some (JStr (name r))" by simp
  show ?thesis
    unfolding Let_def
    by (intro exI[of _ ns] exI[of _ kvs] conjI l m nm' a pr b c)
qed

lemma nameless_root_eval:
  "\<exists>r0 r1 V. extract_modules nameless_root_doc [] {} = Inr ([r0, r1], V) \<and>
     name r0 = [] \<and> full_path r0 = [] \<and> name r1 = ''alu'' \<and> full_path r1 = ''alu''"
  by (simp add: nameless_root_doc_def mk_module_def extract_modules.simps has_key_def
      child_path_def make_module_info_def Let_def)

lemma nameless_root_lineage: "lineage nameless_root_doc [[]] (mk_module ''alu'' [])"
  by (rule lineage.down[OF _ _ lineage.here])
     (simp_all add: nameless_root_doc_def mk_module_def)

text \<open>
  C3 as stated fails: below a root named by the empty string, the sub-module \<^verbatim>\<open>alu\<close> gets
  the full path \<^verbatim>\<open>alu\<close>, not the parent's full path, a slash and its name (\<^verbatim>\<open>/alu\<close>).
\<close>

theorem extract_modules_full_path_counterexample:
  "\<exists>r0 r1 V. extract_modules nameless_root_doc [] {} = Inr ([r0, r1], V) \<and>
     lineage nameless_root_doc [name r0] (mk_module ''alu'' []) \<and>
     node_name (mk_module ''alu'' []) = Some (name r1) \<and>
     full_path r0 = [] \<and> full_path r1 = ''alu'' \<and>
     full_path r1 \<noteq> full_path r0 @ ''/'' @ name r1"
proof -
  from nameless_root_eval obtain r0 r1 V where
    e: "extract_modules nameless_root_doc [] {} = Inr ([r0, r1], V)"
    and f: "name r0 = []" "full_path r0 = []" "name r1 = ''alu''" "full_path r1 = ''alu''"
    by (elim exE conjE)
  have n: "node_name (mk_module ''alu'' []) = Some ''alu''" by (simp add: mk_module_def)
  show ?thesis
    by (intro exI[of _ r0] exI[of _ r1] exI[of _ V] conjI e)
       (simp_all add: f n nameless_root_lineage)
qed

lemma twin_names:
  "\<exists>ms V. extract_modules twin_doc [] {} = Inr (ms, V) \<and>
      map name ms = [''cpu'', ''alu'', ''fpu'']"
  by (simp add: twin_doc_def mk_module_def extract_modules.simps has_key_def dict_get_def
      child_path_def make_module_info_def Let_def)

theorem extract_modules_full_path_witness:
  "\<exists>ms V r. extract_modules twin_doc [] {} = Inr (ms, V) \<and> r \<in> set ms \<and>
     name r = ''fpu'' \<and>
     (\<exists>ns kvs. lineage twin_doc ns (JObj kvs) \<and> is_module (JObj kvs) \<and>
        map_of kvs ''name'' = Some (JStr (name r)) \<and>
        (let up = descend [] ns in
           full_path r = (if up = [] then name r else up @ ''/'' @ name r) \<and>
           parent r = (if up = [] then None else Some up) \<and>
           (ns = [] \<or> (\<exists>r' \<in> set ms. name r' = last ns \<and> full_path r' = up)) \<and>
           ([] = ([]::string) \<and> hd (ns @ [name r]) \<noteq> [] \<longrightarrow>
              full_path r = join_slash (ns @ [name r]))))"
proof -
  from twin_names obtain ms V where e: "extract_modules twin_doc [] {} = Inr (ms, V)"
    and ns: "map name ms = [''cpu'', ''alu'', ''fpu'']"
    by (elim exE conjE)
  from ns have "''fpu'' \<in> name ` set ms" by (simp flip: set_map)
  then obtain r where r: "r \<in> set ms" and n: "name r = ''fpu''" by (auto simp: image_iff)
  from extract_modules_full_path [OF e r] show ?thesis
    by (intro exI[of _ ms] exI[of _ V] exI[of _ r] conjI e r n)
qed

section \<open>Properties of the test-case extractor\<close>

lemma extract_testcases_no_name:
  "node_name data = None \<Longrightarrow> (\<forall>kvs v. data = JObj kvs \<longrightarrow> map_of kvs ''name'' \<noteq> Some v)
    \<Longrightarrow> extract_testcases data p V = Inr ([], V)"
  by (cases data) (auto simp: extract_testcases.simps split: option.splits)

lemma extract_testcases_Inr_cases [consumes 1, case_names skip dup leaf list single]:
  assumes "extract_testcases data p V = Inr (ts, V')"
  obtains
    (skip) "node_name data = None" "ts = []" "V' = V"
  | (dup) kvs n where "data = JObj kvs" "map_of kvs ''name'' = Some (JStr n)"
      "n \<in> V" "ts = []" "V' = V"
  | (leaf) kvs n where "data = JObj kvs" "map_of kvs ''name'' = Some (JStr n)"
      "n \<notin> V" "ts = module_testcases n p kvs" "V' = insert n V"
  | (list) kvs n subs ts' where "data = JObj kvs" "map_of kvs ''name'' = Some (JStr n)"
      "n \<notin> V" "map_of kvs ''submodules'' = Some (JArr subs)"
      "extract_testcases_each subs (child_path p n) (insert n V) = Inr (ts', V')"
      "ts = module_testcases n p kvs @ ts'"
  | (single) kvs n sub ts' where "data = JObj kvs" "map_of kvs ''name'' = Some (JStr n)"
      "n \<notin> V" "map_of kvs ''submodules'' = Some (JObj sub)" "sub \<noteq> []"
      "extract_testcases (JObj sub) (child_path p n) (insert n V) = Inr (ts', V')"
      "ts = module_testcases n p kvs @ ts'"
proof (cases data)
  case (JObj kvs)
  note eqn = extract_testcases.simps(1)[of kvs p V]
  show ?thesis
  proof (cases "map_of kvs ''name''")
    case None
    with assms JObj show ?thesis by (intro skip) (simp_all add: eqn)
  next
    case (Some v)
    with assms JObj obtain n where n: "v = JStr n"
      by (cases v) (simp_all add: eqn)
    show ?thesis
    proof (cases "n \<in> V")
      case True
      with assms JObj Some n show ?thesis by (intro dup[of kvs n]) (simp_all add: eqn)
    next
      case False
      note nv = False
      show ?thesis
      proof (cases "map_of kvs ''submodules''")
        case None
        with assms JObj Some n nv show ?thesis
          by (intro leaf[of kvs n]) (simp_all add: eqn Let_def)
      next
        case sm: (Some s)
        show ?thesis
        proof (cases s)
          case (JArr subs)
          with assms JObj Some n nv sm obtain ts' where
            "extract_testcases_each subs (child_path p n) (insert n V) = Inr (ts', V')"
            "ts = module_testcases n p kvs @ ts'"
            by (auto simp: eqn Let_def split: sum.splits)
          with JObj Some n nv sm JArr show ?thesis
            by (intro list[of kvs n subs ts']) simp_all
        next
          case inner: (JObj sub)
          show ?thesis
          proof (cases "sub = []")
            case True
            with assms JObj Some n nv sm inner show ?thesis
              by (intro leaf[of kvs n]) (simp_all add: eqn Let_def)
          next
            case False
            with assms JObj Some n nv sm inner obtain ts' where
              "extract_testcases (JObj sub) (child_path p n) (insert n V) = Inr (ts', V')"
              "ts = module_testcases n p kvs @ ts'"
              by (auto simp: eqn Let_def split: sum.splits)
            with JObj Some n nv sm inner False show ?thesis
              by (intro single[of kvs n sub ts']) simp_all
          qed
        qed (use assms JObj Some n nv sm in
              \<open>(intro leaf[of kvs n]; simp add: eqn Let_def)+\<close>)
      qed
    qed
  qed
qed (use assms in \<open>(intro skip; simp add: extract_testcases.simps)+\<close>)

lemma extract_testcases_each_Cons_cases [consumes 1, case_names walk pass]:
  assumes "extract_testcases_each (s # rest) p V = Inr (ts, V')"
  obtains
    (walk) ts1 V1 ts2 where "is_dict s" "extract_testcases s p V = Inr (ts1, V1)"
      "extract_testcases_each rest p V1 = Inr (ts2, V')" "ts = ts1 @ ts2"
  | (pass) "\<not> is_dict s" "extract_testcases_each rest p V = Inr (ts, V')"
  using assms by (auto simp: extract_testcases.simps split: if_splits sum.splits)

lemma testcase_entries_fields:
  "t \<in> set (testcase_entries cm p cfg k tcl) \<Longrightarrow> module t = cm \<and> module_path t = p"
proof (induction tcl arbitrary: k)
  case Nil
  then show ?case by simp
next
  case (Cons x xs)
  then show ?case by (cases x) (auto simp: make_testcase_info_def)
qed

lemma config_testcases_fields:
  "t \<in> set (config_testcases cm p cfg) \<Longrightarrow> module t = cm \<and> module_path t = p"
  unfolding config_testcases_def
  by (cases "dict_get cfg ''test_case'' (JArr [])") (simp_all add: testcase_entries_fields)

lemma module_testcases_fields:
  assumes "t \<in> set (module_testcases cm p kvs)"
  shows "module t = cm \<and> module_path t = p"
proof (cases "map_of kvs ''test''")
  case None
  with assms show ?thesis by (simp add: module_testcases_def)
next
  case (Some tv)
  show ?thesis
  proof (cases tv)
    case (JObj cfg)
    with assms Some have "t \<in> set (config_testcases cm p cfg)"
      by (cases "cfg = []") (simp_all add: module_testcases_def)
    then show ?thesis by (rule config_testcases_fields)
  qed (use assms Some in \<open>simp_all add: module_testcases_def\<close>)
qed

lemma module_testcases_module:
  "\<forall>t \<in> set (module_testcases cm p kvs). module t = cm"
  using module_testcases_fields by blast

lemma extract_testcases_visited:
  "extract_testcases data p V = Inr (ts, V') \<Longrightarrow>
     V \<subseteq> V' \<and> (\<forall>t \<in> set ts. module t \<notin> V \<and> module t \<in> V')"
  "extract_testcases_each subs p V = Inr (ts, V') \<Longrightarrow>
     V \<subseteq> V' \<and> (\<forall>t \<in> set ts. module t \<notin> V \<and> module t \<in> V')"
proof (induction data p V and subs p V arbitrary: ts V' and ts V'
       rule: extract_testcases_extract_testcases_each.induct)
  case (1 kvs path visited)
  from "1.prems" show ?case
  proof (cases rule: extract_testcases_Inr_cases)
    case (leaf kvs' n)
    then show ?thesis using module_testcases_module[of n path kvs] by auto
  next
    case (list kvs' n subs ts')
    then have f: "map_of kvs ''name'' = Some (JStr n)" "n \<notin> visited"
      "map_of kvs ''submodules'' = Some (JArr subs)"
      "extract_testcases_each subs (child_path path n) (insert n visited) = Inr (ts', V')"
      by simp_all
    from "1.IH"(1)[OF f(1) refl f(2) refl refl refl f(3) refl f(4)]
    have "insert n visited \<subseteq> V' \<and> (\<forall>t \<in> set ts'. module t \<notin> insert n visited \<and> module t \<in> V')" .
    with list show ?thesis using module_testcases_module[of n path kvs] by auto
  next
    case (single kvs' n sub ts')
    then have f: "map_of kvs ''name'' = Some (JStr n)" "n \<notin> visited"
      "map_of kvs ''submodules'' = Some (JObj sub)" "sub \<noteq> []"
      "extract_testcases (JObj sub) (child_path path n) (insert n visited) = Inr (ts', V')"
      by simp_all
    from "1.IH"(2)[OF f(1) refl f(2) refl refl refl f(3) refl f(4) f(5)]
    have "insert n visited \<subseteq> V' \<and> (\<forall>t \<in> set ts'. module t \<notin> insert n visited \<and> module t \<in> V')" .
    with single show ?thesis using module_testcases_module[of n path kvs] by auto
  qed auto
next
  case (4 submodule rest path visited)
  from "4.prems" show ?case
  proof (cases rule: extract_testcases_each_Cons_cases)
    case (walk ts1 V1 ts2)
    from "4.IH"(1)[OF walk(1) walk(2)]
    have a: "visited \<subseteq> V1" "\<forall>t \<in> set ts1. module t \<notin> visited \<and> module t \<in> V1" by simp_all
    from "4.IH"(2)[OF walk(1) walk(2) refl walk(3)]
    have b: "V1 \<subseteq> V'" "\<forall>t \<in> set ts2. module t \<notin> V1 \<and> module t \<in> V'" by simp_all
    from a b walk(4) show ?thesis by auto
  next
    case pass
    with "4.IH"(3) show ?thesis by simp
  qed
qed (simp_all add: extract_testcases.simps)

subsection \<open>A node and the loop over its sub-modules\<close>

lemma extract_testcases_each_filter:
  "extract_testcases_each (filter is_dict subs) p V = extract_testcases_each subs p V"
  by (induction subs arbitrary: V) (auto split: sum.splits)

lemma extract_testcases_each_single:
  "extract_testcases_each [JObj sub] p V = extract_testcases (JObj sub) p V"
  by (cases "extract_testcases (JObj sub) p V") auto

lemma extract_testcases_dup:
  "map_of kvs ''name'' = Some (JStr n) \<Longrightarrow> n \<in> V \<Longrightarrow>
   extract_testcases (JObj kvs) p V = Inr ([], V)"
  by (simp add: extract_testcases.simps(1))

lemma extract_testcases_node:
  assumes "map_of kvs ''name'' = Some (JStr n)" "n \<notin> V"
  shows "extract_testcases (JObj kvs) p V =
     (case extract_testcases_each (submodule_nodes (JObj kvs)) (child_path p n) (insert n V) of
        Inl e \<Rightarrow> Inl e
      | Inr (ts, V') \<Rightarrow> Inr (module_testcases n p kvs @ ts, V'))"
proof -
  note eqn = extract_testcases.simps(1)[of kvs p V]
  show ?thesis
  proof (cases "map_of kvs ''submodules''")
    case None
    with assms show ?thesis
      by (simp add: eqn Let_def)
  next
    case (Some s)
    show ?thesis
    proof (cases s)
      case (JArr subs)
      with assms Some show ?thesis
        by (simp add: eqn Let_def extract_testcases_each_filter)
    next
      case (JObj sub)
      with assms Some show ?thesis
        by (cases "sub = []")
           (simp_all add: eqn Let_def extract_testcases_each_single del: extract_testcases_each.simps(2))
    qed (use assms Some in \<open>simp_all add: eqn Let_def\<close>)
  qed
qed

lemma extract_testcases_each_total:
  assumes "\<And>c p V. c \<in> set cs \<Longrightarrow> \<exists>ts V'. extract_testcases c p V = Inr (ts, V')"
  shows "\<exists>ts V'. extract_testcases_each cs p V = Inr (ts, V')"
  using assms
proof (induction cs arbitrary: V)
  case Nil
  then show ?case by simp
next
  case (Cons c cs)
  from Cons.prems[of c p V] obtain ts1 V1 where a: "extract_testcases c p V = Inr (ts1, V1)"
    by auto
  from Cons.IH[of V1] Cons.prems obtain ts2 V2 where b: "extract_testcases_each cs p V1 = Inr (ts2, V2)"
    by auto
  from Cons.IH[of V] Cons.prems obtain ts3 V3 where c: "extract_testcases_each cs p V = Inr (ts3, V3)"
    by auto
  from a b c show ?case by simp
qed

lemma extract_testcases_total:
  "str_names d \<Longrightarrow> \<exists>ts V'. extract_testcases d p V = Inr (ts, V')"
proof (induction d arbitrary: p V rule: submodule_induct)
  case (node d)
  show ?case
  proof (cases d)
    case (JObj kvs)
    show ?thesis
    proof (cases "map_of kvs ''name''")
      case None
      with JObj show ?thesis by (simp add: extract_testcases.simps(1))
    next
      case (Some v)
      from str_names_name[OF node.prems[unfolded JObj] Some] obtain n where n: "v = JStr n" ..
      show ?thesis
      proof (cases "n \<in> V")
        case True
        with JObj Some n show ?thesis by (simp add: extract_testcases_dup)
      next
        case False
        have "\<exists>ts V'. extract_testcases_each (submodule_nodes d) (child_path p n) (insert n V) = Inr (ts, V')"
          by (rule extract_testcases_each_total) (rule node.IH, assumption, rule str_names_nodes[OF node.prems])
        with extract_testcases_node[OF Some[unfolded n] False] JObj show ?thesis
          by auto
      qed
    qed
  qed (simp_all add: extract_testcases.simps)
qed

lemma extract_testcases_each_walk:
  assumes "\<And>c p V ts V' pending. c \<in> set cs \<Longrightarrow> extract_testcases c p V = Inr (ts, V') \<Longrightarrow>
             spec_walk testcase_entry ((p, c) # pending) V = ts @ spec_walk testcase_entry pending V'"
    and "extract_testcases_each cs p V = Inr (ts, V')"
  shows "spec_walk testcase_entry (map (Pair p) cs @ pending) V =
           ts @ spec_walk testcase_entry pending V'"
  using assms
proof (induction cs arbitrary: V ts)
  case Nil
  then show ?case by simp
next
  case (Cons c cs)
  from Cons.prems(2) show ?case
  proof (cases rule: extract_testcases_each_Cons_cases)
    case (walk ts1 V1 ts2)
    from Cons.prems(1)[OF _ walk(2), of "map (Pair p) cs @ pending"]
    have "spec_walk testcase_entry ((p, c) # map (Pair p) cs @ pending) V =
            ts1 @ spec_walk testcase_entry (map (Pair p) cs @ pending) V1" by simp
    moreover from Cons.IH[OF _ walk(3)] Cons.prems(1)
    have "spec_walk testcase_entry (map (Pair p) cs @ pending) V1 =
            ts2 @ spec_walk testcase_entry pending V'" by simp
    ultimately show ?thesis using walk(4) by simp
  next
    case pass
    then have "testcase_entry p c = None" by (cases c) simp_all
    then have "spec_walk testcase_entry ((p, c) # map (Pair p) cs @ pending) V =
            spec_walk testcase_entry (map (Pair p) cs @ pending) V"
      by (simp add: spec_walk.simps)
    moreover from Cons.IH[OF _ pass(2)] Cons.prems(1)
    have "spec_walk testcase_entry (map (Pair p) cs @ pending) V =
            ts @ spec_walk testcase_entry pending V'" by simp
    ultimately show ?thesis by simp
  qed
qed

lemma extract_testcases_walk:
  "extract_testcases d p V = Inr (ts, V') \<Longrightarrow>
   spec_walk testcase_entry ((p, d) # pending) V = ts @ spec_walk testcase_entry pending V'"
proof (induction d arbitrary: p V ts V' pending rule: submodule_induct)
  case (node d)
  show ?case
  proof (cases "testcase_entry p d")
    case None
    have "ts = [] \<and> V' = V"
      using node.prems
    proof (cases rule: extract_testcases_Inr_cases)
      case skip
      then show ?thesis by simp
    qed (use None in simp_all)
    with None show ?thesis by (simp add: spec_walk.simps)
  next
    case (Some e)
    then obtain kvs n where d: "d = JObj kvs"
      and n: "map_of kvs ''name'' = Some (JStr n)"
      and e: "e = (n, module_testcases n p kvs, child_path p n)"
      by (cases d) (auto split: if_splits option.splits json.splits)
    show ?thesis
    proof (cases "n \<in> V")
      case True
      with node.prems d extract_testcases_dup[OF n True] Some e show ?thesis
        by (simp add: spec_walk.simps)
    next
      case False
      from node.prems extract_testcases_node[OF n False] d obtain ts' where
        sub: "extract_testcases_each (submodule_nodes d) (child_path p n) (insert n V) = Inr (ts', V')"
        and ts: "ts = module_testcases n p kvs @ ts'"
        by (auto split: sum.splits)
      from extract_testcases_each_walk[OF node.IH sub, of pending]
      have "spec_walk testcase_entry (map (Pair (child_path p n)) (submodule_nodes d) @ pending)
              (insert n V) = ts' @ spec_walk testcase_entry pending V'"
        by simp
      with Some e False ts show ?thesis by (simp add: spec_walk.simps)
    qed
  qed
qed

lemma filter_module_none: "\<forall>t \<in> set ts. module t \<noteq> n \<Longrightarrow> filter (\<lambda>t. module t = n) ts = []"
  by (simp add: filter_empty_conv)

lemma extract_testcases_each_sole:
  assumes "\<And>c p V ts V' n. c \<in> set cs \<Longrightarrow> extract_testcases c p V = Inr (ts, V') \<Longrightarrow>
             n \<in> V' \<Longrightarrow> n \<notin> V \<Longrightarrow> sole_owner c p ts n"
    and "extract_testcases_each cs p V = Inr (ts, V')" "n \<in> V'" "n \<notin> V"
  shows "\<exists>c \<in> set cs. sole_owner c p ts n"
  using assms
proof (induction cs arbitrary: V ts)
  case Nil
  then show ?case by simp
next
  case (Cons c cs)
  from Cons.prems(2) show ?case
  proof (cases rule: extract_testcases_each_Cons_cases)
    case (walk ts1 V1 ts2)
    from extract_testcases_visited(1)[OF walk(2)]
    have a: "V \<subseteq> V1" "\<forall>t \<in> set ts1. module t \<notin> V \<and> module t \<in> V1" by simp_all
    from extract_testcases_visited(2)[OF walk(3)]
    have b: "V1 \<subseteq> V'" "\<forall>t \<in> set ts2. module t \<notin> V1 \<and> module t \<in> V'" by simp_all
    show ?thesis
    proof (cases "n \<in> V1")
      case True
      from Cons.prems(1)[OF _ walk(2) True Cons.prems(4)] have "sole_owner c p ts1 n" by simp
      moreover from b(2) True have "filter (\<lambda>t. module t = n) ts2 = []"
        by (intro filter_module_none) auto
      ultimately have "sole_owner c p ts n" using walk(4) by (simp add: sole_owner_def)
      then show ?thesis by simp
    next
      case False
      from Cons.IH[OF _ walk(3) Cons.prems(3) False] Cons.prems(1)
      obtain c' where c': "c' \<in> set cs" "sole_owner c' p ts2 n" by auto
      moreover from a(2) False have "filter (\<lambda>t. module t = n) ts1 = []"
        by (intro filter_module_none) auto
      ultimately have "sole_owner c' p ts n" using walk(4) by (simp add: sole_owner_def)
      with c'(1) show ?thesis by auto
    qed
  next
    case pass
    from Cons.IH[OF _ pass(2) Cons.prems(3,4)] Cons.prems(1) show ?thesis by auto
  qed
qed

lemma sole_owner_here:
  "map_of kvs ''name'' = Some (JStr n) \<Longrightarrow>
   filter (\<lambda>t. module t = n) ts = module_testcases n p kvs \<Longrightarrow> sole_owner (JObj kvs) p ts n"
  unfolding sole_owner_def
  by (intro exI[of _ "[]"] exI[of _ kvs]) (simp add: lineage.here descend_def)

lemma sole_owner_down:
  assumes "node_name d = Some m" "c \<in> set (submodule_nodes d)" "sole_owner c (child_path p m) ts n"
  shows "sole_owner d p ts n"
proof -
  from assms(3) obtain ns kvs where l: "lineage c ns (JObj kvs)"
    and k: "map_of kvs ''name'' = Some (JStr n)"
    and f: "filter (\<lambda>t. module t = n) ts = module_testcases n (descend (child_path p m) ns) kvs"
    unfolding sole_owner_def by blast
  from assms(1,2) l have "lineage d (m # ns) (JObj kvs)" by (rule lineage.down)
  with k f show ?thesis unfolding sole_owner_def
    by (intro exI[of _ "m # ns"] exI[of _ kvs]) (simp add: descend_Cons)
qed

lemma extract_testcases_sole:
  "extract_testcases d p V = Inr (ts, V') \<Longrightarrow> n \<in> V' \<Longrightarrow> n \<notin> V \<Longrightarrow> sole_owner d p ts n"
proof (induction d arbitrary: p V ts V' n rule: submodule_induct)
  case (node d)
  show ?case
  proof (cases "testcase_entry p d")
    case None
    have "ts = [] \<and> V' = V"
      using node.prems(1)
    proof (cases rule: extract_testcases_Inr_cases)
      case skip
      then show ?thesis by simp
    qed (use None in simp_all)
    with node.prems show ?thesis by simp
  next
    case (Some e)
    then obtain kvs m where d: "d = JObj kvs"
      and m: "map_of kvs ''name'' = Some (JStr m)"
      by (cases d) (auto split: if_splits option.splits json.splits)
    show ?thesis
    proof (cases "m \<in> V")
      case True
      with node.prems d extract_testcases_dup[OF m True] show ?thesis by simp
    next
      case False
      from node.prems(1) extract_testcases_node[OF m False] d obtain ts' where
        sub: "extract_testcases_each (submodule_nodes d) (child_path p m) (insert m V) = Inr (ts', V')"
        and ts: "ts = module_testcases m p kvs @ ts'"
        by (auto split: sum.splits)
      from extract_testcases_visited(2)[OF sub]
      have v: "\<forall>t \<in> set ts'. module t \<notin> insert m V \<and> module t \<in> V'" by simp
      have own: "filter (\<lambda>t. module t = m) (module_testcases m p kvs) = module_testcases m p kvs"
        using module_testcases_module[of m p kvs] by (simp add: filter_id_conv)
      show ?thesis
      proof (cases "n = m")
        case True
        from v have "filter (\<lambda>t. module t = m) ts' = []"
          by (intro filter_module_none) auto
        with own ts have "filter (\<lambda>t. module t = m) ts = module_testcases m p kvs" by simp
        with True m d show ?thesis by (simp add: sole_owner_here)
      next
        case False
        with node.prems(3) have nv: "n \<notin> insert m V" by simp
        have "\<exists>c \<in> set (submodule_nodes d). sole_owner c (child_path p m) ts' n"
          by (rule extract_testcases_each_sole[OF _ sub node.prems(2) nv]) (rule node.IH)
        then obtain c where c: "c \<in> set (submodule_nodes d)" "sole_owner c (child_path p m) ts' n"
          by blast
        from False module_testcases_module[of m p kvs]
        have "filter (\<lambda>t. module t = n) (module_testcases m p kvs) = []"
          by (intro filter_module_none) auto
        with c(2) ts have "sole_owner c (child_path p m) ts n" by (simp add: sole_owner_def)
        moreover from d m have "node_name d = Some m" by simp
        ultimately show ?thesis using c(1) by (intro sole_owner_down[of d m c])
      qed
    qed
  qed
qed

text \<open>
  C2. On a document whose names are strings \<open>extract_testcases\<close> returns, and what it returns
  is the list of the pre-order traversal that keeps the first node of every bare name:
  \<open>spec_walk testcase_entry\<close> started on the document alone. The visited set holds bare
  module names, and no record of a call belongs to a name that was visited before the call,
  whatever the path. Every name visited during the call has contributed from one single
  node, whatever other nodes carry it and wherever they lie; every other name has no record
  at all. A node whose name is already visited yields nothing, with everything below it,
  and leaves the set alone; otherwise the records carrying its name are exactly its own
  test cases.
\<close>

theorem extract_testcases_dedup_by_name:
  assumes "str_names data"
  shows "\<exists>testcases visited'.
           extract_testcases data path visited = Inr (testcases, visited') \<and>
           testcases = spec_walk testcase_entry [(path, data)] visited \<and>
           visited \<subseteq> visited' \<and>
           (\<forall>t \<in> set testcases. module t \<notin> visited \<and> module t \<in> visited') \<and>
           (\<forall>n. if n \<in> visited' - visited then sole_owner data path testcases n
                else filter (\<lambda>t. module t = n) testcases = []) \<and>
           (\<forall>kvs n. data = JObj kvs \<and> map_of kvs ''name'' = Some (JStr n) \<longrightarrow>
              n \<in> visited' \<and>
              (if n \<in> visited then testcases = [] \<and> visited' = visited
               else filter (\<lambda>t. module t = n) testcases = module_testcases n path kvs))"
proof -
  from extract_testcases_total[OF assms, of path visited] obtain testcases visited' where
    e: "extract_testcases data path visited = Inr (testcases, visited')" by blast
  from extract_testcases_walk[OF e, of "[]"]
  have w: "testcases = spec_walk testcase_entry [(path, data)] visited"
    by (simp add: spec_walk.simps(1))
  note v = extract_testcases_visited(1)[OF e]
  have o: "\<forall>n. if n \<in> visited' - visited then sole_owner data path testcases n
                else filter (\<lambda>t. module t = n) testcases = []"
  proof
    fix n
    show "if n \<in> visited' - visited then sole_owner data path testcases n
                else filter (\<lambda>t. module t = n) testcases = []"
    proof (cases "n \<in> visited' - visited")
      case True
      with extract_testcases_sole[OF e, of n] show ?thesis by simp
    next
      case False
      with v have f: "filter (\<lambda>t. module t = n) testcases = []"
        by (intro filter_module_none) auto
      show ?thesis unfolding if_not_P[OF False] by (rule f)
    qed
  qed
  have own: "filter (\<lambda>t. module t = n) (module_testcases n path kvs) = module_testcases n path kvs"
    for n kvs using module_testcases_module[of n path kvs] by (simp add: filter_id_conv)
  have r: "\<forall>kvs n. data = JObj kvs \<and> map_of kvs ''name'' = Some (JStr n) \<longrightarrow>
            n \<in> visited' \<and>
            (if n \<in> visited then testcases = [] \<and> visited' = visited
             else filter (\<lambda>t. module t = n) testcases = module_testcases n path kvs)"
  proof (intro allI impI, elim conjE)
    fix kvs n
    assume d: "data = JObj kvs" and n: "map_of kvs ''name'' = Some (JStr n)"
    show "n \<in> visited' \<and>
            (if n \<in> visited then testcases = [] \<and> visited' = visited
             else filter (\<lambda>t. module t = n) testcases = module_testcases n path kvs)"
    proof (cases "n \<in> visited")
      case True
      with e d extract_testcases_dup[OF n True, of path] show ?thesis by simp
    next
      case False
      from e extract_testcases_node[OF n False, of path] d obtain ts' where
        sub: "extract_testcases_each (submodule_nodes data) (child_path path n) (insert n visited) = Inr (ts', visited')"
        and ts: "testcases = module_testcases n path kvs @ ts'"
        by (auto split: sum.splits)
      from extract_testcases_visited(2)[OF sub]
      have v': "insert n visited \<subseteq> visited'"
        "\<forall>t \<in> set ts'. module t \<notin> insert n visited \<and> module t \<in> visited'" by simp_all
      from v'(2) have "filter (\<lambda>t. module t = n) ts' = []"
        by (intro filter_module_none) auto
      with own[of n kvs] ts v'(1) False show ?thesis by auto
    qed
  qed
  from e w v o r show ?thesis by blast
qed

text \<open>
  The two modules called \<^verbatim>\<open>alu\<close> of the example: only the test case \<^verbatim>\<open>add\<close> of the first is
  extracted; \<^verbatim>\<open>mul\<close> of the second and \<^verbatim>\<open>blend\<close> of the module below it are not.
\<close>

theorem extract_testcases_dedup_by_name_witness:
  "str_names shared_name_doc \<and>
   (\<exists>testcases visited'. extract_testcases shared_name_doc [] {} = Inr (testcases, visited') \<and>
      map module testcases = [''alu''] \<and> map test_name testcases = [JStr ''add''] \<and>
      map module_path testcases = [''soc/core''] \<and>
      sole_owner shared_name_doc [] testcases ''alu'' \<and>
      filter (\<lambda>t. module t = ''shader'') testcases = [])"
proof -
  have s: "str_names shared_name_doc"
    by (simp add: shared_name_doc_def)
  from extract_testcases_dedup_by_name [OF s, of "[]" "{}"] obtain testcases visited' where
    e: "extract_testcases shared_name_doc [] {} = Inr (testcases, visited')"
    and w: "testcases = spec_walk testcase_entry [([], shared_name_doc)] {}"
    and m: "\<forall>t \<in> set testcases. module t \<notin> {} \<and> module t \<in> visited'"
    and o: "\<forall>n. if n \<in> visited' - {} then sole_owner shared_name_doc [] testcases n
                else filter (\<lambda>t. module t = n) testcases = []" by blast
  have "map module (spec_walk testcase_entry [([], shared_name_doc)] {}) = [''alu''] \<and>
        map test_name (spec_walk testcase_entry [([], shared_name_doc)] {}) = [JStr ''add''] \<and>
        map module_path (spec_walk testcase_entry [([], shared_name_doc)] {}) = [''soc/core'']"
    by (simp add: shared_name_doc_def spec_walk.simps module_testcases_def
        config_testcases_def make_testcase_info_def dict_get_def child_path_def)
  with w have t: "map module testcases = [''alu'']" "map test_name testcases = [JStr ''add'']"
    "map module_path testcases = [''soc/core'']" by simp_all
  from t(1) m have "''alu'' \<in> visited'" by (cases testcases) auto
  with o have a: "sole_owner shared_name_doc [] testcases ''alu''"
    by (auto split: if_splits)
  from t(1) have f: "filter (\<lambda>t. module t = ''shader'') testcases = []"
    by (cases testcases) auto
  show ?thesis by (intro conjI exI[of _ testcases] exI[of _ visited'] s e t a f)
qed

lemma shared_name_eval:
  "\<exists>ts V. extract_testcases shared_name_doc [] {} = Inr (ts, V) \<and>
     map module ts = [''alu''] \<and> map test_name ts = [JStr ''add''] \<and>
     map module_path ts = [''soc/core'']"
  by (simp add: shared_name_doc_def extract_testcases.simps module_testcases_def
      config_testcases_def make_testcase_info_def dict_get_def child_path_def Let_def)

subsection \<open>Module paths follow the tree\<close>

lemma owned_here:
  "map_of kvs ''name'' = Some (JStr n) \<Longrightarrow> t \<in> set (module_testcases n p kvs)
    \<Longrightarrow> owned (JObj kvs) p t"
proof -
  assume a: "map_of kvs ''name'' = Some (JStr n)" "t \<in> set (module_testcases n p kvs)"
  then have "module t = n" using module_testcases_fields by blast
  with a show ?thesis unfolding owned_def
    by (intro exI[of _ "[]"] exI[of _ kvs]) (simp add: lineage.here descend_def)
qed

lemma owned_down:
  assumes "node_name d = Some n" "c \<in> set (submodule_nodes d)" "owned c (child_path p n) t"
  shows "owned d p t"
proof -
  from assms(3) obtain ns kvs where l: "lineage c ns (JObj kvs)"
    and nm: "map_of kvs ''name'' = Some (JStr (module t))"
    and t: "t \<in> set (module_testcases (module t) (descend (child_path p n) ns) kvs)"
    unfolding owned_def by blast
  from assms(1,2) l have "lineage d (n # ns) (JObj kvs)" by (rule lineage.down)
  with nm t show ?thesis unfolding owned_def
    by (intro exI[of _ "n # ns"] exI[of _ kvs]) (simp add: descend_Cons)
qed

lemma extract_testcases_owned:
  "extract_testcases data p V = Inr (ts, V') \<Longrightarrow> t \<in> set ts \<Longrightarrow> owned data p t"
  "extract_testcases_each subs p V = Inr (ts, V') \<Longrightarrow> t \<in> set ts \<Longrightarrow>
     \<exists>c \<in> set (filter is_dict subs). owned c p t"
proof (induction data p V and subs p V arbitrary: ts V' t and ts V' t
       rule: extract_testcases_extract_testcases_each.induct)
  case (1 kvs path visited)
  from "1.prems"(1) show ?case
  proof (cases rule: extract_testcases_Inr_cases)
    case skip
    with "1.prems" show ?thesis by simp
  next
    case (dup kvs' n)
    with "1.prems" show ?thesis by simp
  next
    case (leaf kvs' n)
    with "1.prems" show ?thesis by (auto intro: owned_here)
  next
    case (list kvs' n subs ts')
    then have f: "map_of kvs ''name'' = Some (JStr n)" "n \<notin> visited"
      "map_of kvs ''submodules'' = Some (JArr subs)"
      "extract_testcases_each subs (child_path path n) (insert n visited) = Inr (ts', V')"
      by simp_all
    show ?thesis
    proof (cases "t \<in> set (module_testcases n path kvs)")
      case True
      with f(1) show ?thesis by (rule owned_here)
    next
      case False
      with list "1.prems" have "t \<in> set ts'" by simp
      from "1.IH"(1)[OF f(1) refl f(2) refl refl refl f(3) refl f(4) this]
      obtain c where c: "c \<in> set (filter is_dict subs)" "owned c (child_path path n) t" by blast
      from f(1) have nn: "node_name (JObj kvs) = Some n" by simp
      from f(3) c(1) have cs: "c \<in> set (submodule_nodes (JObj kvs))" by simp
      from nn cs c(2) show ?thesis by (rule owned_down)
    qed
  next
    case (single kvs' n sub ts')
    then have f: "map_of kvs ''name'' = Some (JStr n)" "n \<notin> visited"
      "map_of kvs ''submodules'' = Some (JObj sub)" "sub \<noteq> []"
      "extract_testcases (JObj sub) (child_path path n) (insert n visited) = Inr (ts', V')"
      by simp_all
    show ?thesis
    proof (cases "t \<in> set (module_testcases n path kvs)")
      case True
      with f(1) show ?thesis by (rule owned_here)
    next
      case False
      with single "1.prems" have "t \<in> set ts'" by simp
      from "1.IH"(2)[OF f(1) refl f(2) refl refl refl f(3) refl f(4) f(5) this]
      have o: "owned (JObj sub) (child_path path n) t" .
      from f(1) have nn: "node_name (JObj kvs) = Some n" by simp
      from f(3,4) have cs: "JObj sub \<in> set (submodule_nodes (JObj kvs))" by simp
      from nn cs o show ?thesis by (rule owned_down)
    qed
  qed
next
  case (4 submodule rest path visited)
  from "4.prems"(1) show ?case
  proof (cases rule: extract_testcases_each_Cons_cases)
    case (walk ts1 V1 ts2)
    show ?thesis
    proof (cases "t \<in> set ts1")
      case True
      from "4.IH"(1)[OF walk(1) walk(2) True] walk(1) show ?thesis by simp
    next
      case False
      with walk "4.prems" have "t \<in> set ts2" by simp
      from "4.IH"(2)[OF walk(1) walk(2) refl walk(3) this] show ?thesis by auto
    qed
  next
    case pass
    from "4.IH"(3)[OF pass "4.prems"(2)] show ?thesis by auto
  qed
qed (simp_all add: extract_testcases.simps)

text \<open>
  C7, as the code has it. Every test-case record belongs to a node found below the
  starting node through a chain of ancestors \<open>ns\<close>, and its \<^verbatim>\<open>module_path\<close> is the path
  accumulated along that chain, the owner excluded: the parent's module path extended by
  the parent's name, with a slash between them only when the parent's module path is not
  empty. Test cases of the starting node carry the \<^verbatim>\<open>module_name\<close> argument itself, the
  empty string at the root. From an empty argument and with a non-empty first name, the
  module path is the slash-joined chain of ancestor names.
\<close>

theorem extract_testcases_module_path:
  assumes "extract_testcases data path visited = Inr (testcases, visited')"
    and "t \<in> set testcases"
  shows "\<exists>ns kvs. lineage data ns (JObj kvs) \<and>
      map_of kvs ''name'' = Some (JStr (module t)) \<and>
      t \<in> set (module_testcases (module t) (descend path ns) kvs) \<and>
      module_path t = descend path ns \<and>
      (ns \<noteq> [] \<longrightarrow> module_path t = child_path (descend path (butlast ns)) (last ns)) \<and>
      (path = [] \<and> ns = [] \<longrightarrow> module_path t = []) \<and>
      (path = [] \<and> ns \<noteq> [] \<and> hd ns \<noteq> [] \<longrightarrow> module_path t = join_slash ns)"
proof -
  from extract_testcases_owned(1)[OF assms] obtain ns kvs where
    l: "lineage data ns (JObj kvs)" and nm: "map_of kvs ''name'' = Some (JStr (module t))"
    and t: "t \<in> set (module_testcases (module t) (descend path ns) kvs)"
    unfolding owned_def by blast
  from t have mp: "module_path t = descend path ns" using module_testcases_fields by blast
  have a: "ns \<noteq> [] \<longrightarrow> module_path t = child_path (descend path (butlast ns)) (last ns)"
  proof
    assume "ns \<noteq> []"
    then have "ns = butlast ns @ [last ns]" by simp
    then have "descend path ns = child_path (descend path (butlast ns)) (last ns)"
      using descend_snoc[of path "butlast ns" "last ns"] by simp
    with mp show "module_path t = child_path (descend path (butlast ns)) (last ns)" by simp
  qed
  have b: "path = [] \<and> ns = [] \<longrightarrow> module_path t = []"
    using mp by (simp add: descend_def)
  have c: "path = [] \<and> ns \<noteq> [] \<and> hd ns \<noteq> [] \<longrightarrow> module_path t = join_slash ns"
    using mp descend_join_slash[of ns] by auto
  show ?thesis
    by (intro exI[of _ ns] exI[of _ kvs] conjI l nm t mp a b c)
qed

lemma nameless_chain_eval:
  "\<exists>t V. extract_testcases nameless_chain_doc [] {} = Inr ([t], V) \<and>
     module t = ''b'' \<and> module_path t = ''a''"
  by (simp add: nameless_chain_doc_def extract_testcases.simps module_testcases_def
      config_testcases_def make_testcase_info_def dict_get_def child_path_def Let_def)

lemma nameless_chain_lineage:
  "\<exists>kvs. lineage nameless_chain_doc [[], ''a''] (JObj kvs) \<and> map_of kvs ''name'' = Some (JStr ''b'')"
proof -
  let ?b = "[(''name'', JStr ''b''),
             (''test'', JObj [(''test_case'', JArr [JObj [(''run_cmd'', JStr ''make'')]])])]"
  let ?a = "JObj [(''name'', JStr ''a''), (''submodules'', JObj ?b)]"
  have "lineage ?a [''a''] (JObj ?b)"
    by (rule lineage.down[OF _ _ lineage.here]) simp_all
  then have "lineage nameless_chain_doc [[], ''a''] (JObj ?b)"
    unfolding nameless_chain_doc_def
    by (rule lineage.down[rotated 2]) simp_all
  then show ?thesis by (intro exI[of _ ?b]) simp
qed

text \<open>
  C7 as stated fails: below a root named by the empty string and its child \<^verbatim>\<open>a\<close>, the
  test case of \<^verbatim>\<open>b\<close> has the module path \<^verbatim>\<open>a\<close>, which is not the slash-joined chain of
  its ancestors' names (\<^verbatim>\<open>/a\<close>).
\<close>

theorem extract_testcases_module_path_counterexample:
  "\<exists>t V kvs. extract_testcases nameless_chain_doc [] {} = Inr ([t], V) \<and>
     lineage nameless_chain_doc [[], ''a''] (JObj kvs) \<and>
     map_of kvs ''name'' = Some (JStr (module t)) \<and>
     module_path t = ''a'' \<and> join_slash [[], ''a''] = ''/a'' \<and>
     module_path t \<noteq> join_slash [[], ''a'']"
proof -
  from nameless_chain_eval obtain t V where
    e: "extract_testcases nameless_chain_doc [] {} = Inr ([t], V)"
    and f: "module t = ''b''" "module_path t = ''a''"
    by (elim exE conjE)
  from nameless_chain_lineage obtain kvs where
    l: "lineage nameless_chain_doc [[], ''a''] (JObj kvs)" "map_of kvs ''name'' = Some (JStr ''b'')"
    by (elim exE conjE)
  show ?thesis
    by (intro exI[of _ t] exI[of _ V] exI[of _ kvs] conjI e l(1)) (simp_all add: f l(2))
qed

theorem extract_testcases_module_path_witness:
  "\<exists>ts V t. extract_testcases shared_name_doc [] {} = Inr (ts, V) \<and> t \<in> set ts \<and>
     module t = ''alu'' \<and>
     (\<exists>ns kvs. lineage shared_name_doc ns (JObj kvs) \<and>
        map_of kvs ''name'' = Some (JStr (module t)) \<and>
        module_path t = descend [] ns \<and> module_path t = ''soc/core'')"
proof -
  from shared_name_eval obtain ts V where
    e: "extract_testcases shared_name_doc [] {} = Inr (ts, V)"
    and m: "map module ts = [''alu'']" and mp: "map module_path ts = [''soc/core'']"
    by (elim exE conjE)
  from m obtain t where ts: "ts = [t]" by auto
  with m mp have t: "t \<in> set ts" "module t = ''alu''" "module_path t = ''soc/core''" by simp_all
  from extract_testcases_module_path [OF e t(1)] obtain ns kvs where
    l: "lineage shared_name_doc ns (JObj kvs)" "map_of kvs ''name'' = Some (JStr (module t))"
    "module_path t = descend [] ns"
    by (elim exE conjE)
  show ?thesis
    by (intro exI[of _ ts] exI[of _ V] exI[of _ t] exI[of _ ns] exI[of _ kvs] conjI e t l)
qed

subsection \<open>Default test names\<close>












section \<open>Properties of the reference resolver\<close>

lemma resolve_plain:
  "map_of kvs ''$ref'' = None \<Longrightarrow>
   resolve_refs fs fuel (JObj kvs) b = resolve_as_mapping fs fuel kvs b"
  by (simp add: resolve_refs.simps resolve_as_mapping_def)

lemma resolve_opaque:
  "map_of kvs ''$ref'' = Some (JStr s) \<Longrightarrow> \<not> is_relative s \<Longrightarrow>
   resolve_refs fs fuel (JObj kvs) b = Some (Inr (JObj kvs))"
  by (simp add: resolve_refs.simps)

lemma resolve_not_str:
  "map_of kvs ''$ref'' = Some v \<Longrightarrow> \<forall>s. v \<noteq> JStr s \<Longrightarrow>
   resolve_refs fs fuel (JObj kvs) b = Some (Inl (AttributeError v))"
  by (cases v) (simp_all add: resolve_refs.simps)

lemma resolve_missing:
  "map_of kvs ''$ref'' = Some (JStr s) \<Longrightarrow> is_relative s \<Longrightarrow>
   files fs (join_path fs b s) = None \<Longrightarrow>
   resolve_refs fs fuel (JObj kvs) b = Some (Inl (FileNotFoundError (join_path fs b s)))"
  by (simp add: resolve_refs.simps Let_def)

lemma resolve_malformed:
  "map_of kvs ''$ref'' = Some (JStr s) \<Longrightarrow> is_relative s \<Longrightarrow>
   files fs (join_path fs b s) = Some Malformed \<Longrightarrow>
   resolve_refs fs fuel (JObj kvs) b = Some (Inl (JSONDecodeError (join_path fs b s)))"
  by (simp add: resolve_refs.simps Let_def)

lemma resolve_hop:
  "map_of kvs ''$ref'' = Some (JStr s) \<Longrightarrow> is_relative s \<Longrightarrow>
   files fs (join_path fs b s) = Some (Document d) \<Longrightarrow>
   resolve_refs fs fuel (JObj kvs) b =
     (case fuel of 0 \<Rightarrow> None
      | Suc fuel' \<Rightarrow> resolve_refs fs fuel' d (parent_dir fs (join_path fs b s)))"
  by (simp add: resolve_refs.simps Let_def)

lemma resolve_array:
  "resolve_refs fs fuel (JArr xs) b =
     (case resolve_elems fs fuel xs b of
        None \<Rightarrow> None
      | Some (Inl e) \<Rightarrow> Some (Inl e)
      | Some (Inr xs') \<Rightarrow> Some (Inr (JArr xs')))"
  by (simp add: resolve_refs.simps)

lemma resolve_scalar:
  "\<not> is_dict obj \<Longrightarrow> (\<forall>xs. obj \<noteq> JArr xs) \<Longrightarrow> resolve_refs fs fuel obj b = Some (Inr obj)"
  by (cases obj) (simp_all add: resolve_refs.simps)

lemma resolve_items_Cons:
  "resolve_items fs fuel ((k, v) # rest) b =
     (case resolve_refs fs fuel v b of
        None \<Rightarrow> None
      | Some (Inl e) \<Rightarrow> Some (Inl e)
      | Some (Inr v') \<Rightarrow>
          (case resolve_items fs fuel rest b of
             None \<Rightarrow> None
           | Some (Inl e) \<Rightarrow> Some (Inl e)
           | Some (Inr rest') \<Rightarrow> Some (Inr ((k, v') # rest'))))"
  by (simp add: resolve_refs.simps)

lemma resolve_elems_Cons:
  "resolve_elems fs fuel (item # rest) b =
     (case resolve_refs fs fuel item b of
        None \<Rightarrow> None
      | Some (Inl e) \<Rightarrow> Some (Inl e)
      | Some (Inr item') \<Rightarrow>
          (case resolve_elems fs fuel rest b of
             None \<Rightarrow> None
           | Some (Inl e) \<Rightarrow> Some (Inl e)
           | Some (Inr rest') \<Rightarrow> Some (Inr (item' # rest'))))"
  by (simp add: resolve_refs.simps)

lemma resolve_Nil [simp]:
  "resolve_items fs fuel [] b = Some (Inr [])" "resolve_elems fs fuel [] b = Some (Inr [])"
  by (simp_all add: resolve_refs.simps)

lemma resolve_mono:
  "resolve_refs fs n d b = Some r \<Longrightarrow> n \<le> m \<Longrightarrow> resolve_refs fs m d b = Some r"
  "resolve_items fs n kvs b = Some ri \<Longrightarrow> n \<le> m \<Longrightarrow> resolve_items fs m kvs b = Some ri"
  "resolve_elems fs n xs b = Some re \<Longrightarrow> n \<le> m \<Longrightarrow> resolve_elems fs m xs b = Some re"
proof (induction fs n d b and fs n kvs b and fs n xs b arbitrary: r m and ri m and re m
       rule: resolve_refs_resolve_items_resolve_elems.induct)
  case (1 fs fuel kvs current_base)
  show ?case
  proof (cases "map_of kvs ''$ref''")
    case None
    with "1.prems" obtain x where x: "resolve_items fs fuel kvs current_base = Some x"
      by (auto simp: resolve_plain resolve_as_mapping_def split: option.splits)
    from "1.IH"(1)[OF None x "1.prems"(2)] x "1.prems"(1) None show ?thesis
      by (simp add: resolve_plain resolve_as_mapping_def)
  next
    case (Some v)
    show ?thesis
    proof (cases "\<exists>s. v = JStr s")
      case False
      with Some "1.prems" show ?thesis by (simp add: resolve_not_str)
    next
      case True
      then obtain s where s: "v = JStr s" by blast
      show ?thesis
      proof (cases "is_relative s")
        case False
        with Some s "1.prems" show ?thesis by (simp add: resolve_opaque)
      next
        case True
        show ?thesis
        proof (cases "files fs (join_path fs current_base s)")
          case None
          with Some s True "1.prems" show ?thesis by (simp add: resolve_missing)
        next
          case target: (Some ft)
          show ?thesis
          proof (cases ft)
            case Malformed
            with Some s True target "1.prems" show ?thesis by (simp add: resolve_malformed)
          next
            case (Document rd)
            note hop = resolve_hop[OF Some[unfolded s] True target[unfolded Document]]
            from "1.prems"(1) obtain k where k: "fuel = Suc k"
              by (cases fuel) (simp_all add: hop)
            with "1.prems"(2) obtain k' where k': "m = Suc k'" "k \<le> k'" by (cases m) simp_all
            from "1.prems"(1) k have
              "resolve_refs fs k rd (parent_dir fs (join_path fs current_base s)) = Some r"
              by (simp add: hop)
            from "1.IH"(2)[OF Some s True refl target Document k this k'(2)] k'(1)
            show ?thesis by (simp add: hop)
          qed
        qed
      qed
    qed
  qed
next
  case (2 fs fuel xs current_base)
  from "2.prems" obtain x where x: "resolve_elems fs fuel xs current_base = Some x"
    by (auto simp: resolve_array split: option.splits)
  from "2.IH"[OF x "2.prems"(2)] x "2.prems"(1) show ?case by (simp add: resolve_array)
next
  case (5 fs fuel k v rest current_base)
  from "5.prems"(1) obtain x where x: "resolve_refs fs fuel v current_base = Some x"
    by (auto simp: resolve_items_Cons split: option.splits)
  note a = "5.IH"(1)[OF x "5.prems"(2)]
  show ?case
  proof (cases x)
    case (Inl e)
    with x a "5.prems"(1) show ?thesis by (simp add: resolve_items_Cons)
  next
    case (Inr v')
    with "5.prems"(1) x obtain y where y: "resolve_items fs fuel rest current_base = Some y"
      by (auto simp: resolve_items_Cons split: option.splits)
    from "5.IH"(2)[OF x Inr y "5.prems"(2)] a x Inr y "5.prems"(1) show ?thesis
      by (simp add: resolve_items_Cons)
  qed
next
  case (7 fs fuel item rest current_base)
  from "7.prems"(1) obtain x where x: "resolve_refs fs fuel item current_base = Some x"
    by (auto simp: resolve_elems_Cons split: option.splits)
  note a = "7.IH"(1)[OF x "7.prems"(2)]
  show ?case
  proof (cases x)
    case (Inl e)
    with x a "7.prems"(1) show ?thesis by (simp add: resolve_elems_Cons)
  next
    case (Inr v')
    with "7.prems"(1) x obtain y where y: "resolve_elems fs fuel rest current_base = Some y"
      by (auto simp: resolve_elems_Cons split: option.splits)
    from "7.IH"(2)[OF x Inr y "7.prems"(2)] a x Inr y "7.prems"(1) show ?thesis
      by (simp add: resolve_elems_Cons)
  qed
qed (simp_all add: resolve_refs.simps)

subsection \<open>Resolved documents\<close>

lemma resolve_items_keys:
  "resolve_items fs n kvs b = Some (Inr kvs') \<Longrightarrow> map fst kvs' = map fst kvs"
proof (induction kvs arbitrary: kvs')
  case Nil
  then show ?case by simp
next
  case (Cons kv kvs)
  obtain k v where kv: "kv = (k, v)" by (cases kv)
  from Cons.prems kv obtain v' rest' where
    "resolve_items fs n kvs b = Some (Inr rest')" "kvs' = (k, v') # rest'"
    by (auto simp: resolve_items_Cons split: option.splits sum.splits)
  with Cons.IH kv show ?case by simp
qed

lemma map_of_None_keys: "map fst kvs' = map fst kvs \<Longrightarrow> map_of kvs k = None \<Longrightarrow> map_of kvs' k = None"
  by (metis map_of_eq_None_iff set_map)

lemma resolve_result_no_pending:
  "resolve_refs fs n d b = Some (Inr d') \<Longrightarrow> pending_refs d' = []"
  "resolve_items fs n kvs b = Some (Inr kvs') \<Longrightarrow> pending_refs_items kvs' = []"
  "resolve_elems fs n xs b = Some (Inr xs') \<Longrightarrow> pending_refs_elems xs' = []"
proof (induction fs n d b and fs n kvs b and fs n xs b arbitrary: d' and kvs' and xs'
       rule: resolve_refs_resolve_items_resolve_elems.induct)
  case (1 fs fuel kvs current_base)
  show ?case
  proof (cases "map_of kvs ''$ref''")
    case None
    with "1.prems" obtain kvs' where x: "resolve_items fs fuel kvs current_base = Some (Inr kvs')"
      and d': "d' = JObj kvs'"
      by (auto simp: resolve_plain resolve_as_mapping_def split: option.splits sum.splits)
    from resolve_items_keys[OF x] None have "map_of kvs' ''$ref'' = None"
      by (rule map_of_None_keys)
    with "1.IH"(1)[OF None x] d' show ?thesis by simp
  next
    case (Some v)
    show ?thesis
    proof (cases "\<exists>s. v = JStr s")
      case False
      with Some "1.prems" show ?thesis by (simp add: resolve_not_str)
    next
      case True
      then obtain s where s: "v = JStr s" by blast
      show ?thesis
      proof (cases "is_relative s")
        case False
        with Some s "1.prems" show ?thesis by (auto simp: resolve_opaque)
      next
        case True
        show ?thesis
        proof (cases "files fs (join_path fs current_base s)")
          case None
          with Some s True "1.prems" show ?thesis by (simp add: resolve_missing)
        next
          case target: (Some ft)
          show ?thesis
          proof (cases ft)
            case Malformed
            with Some s True target "1.prems" show ?thesis by (simp add: resolve_malformed)
          next
            case (Document rd)
            note hop = resolve_hop[OF Some[unfolded s] True target[unfolded Document]]
            from "1.prems"(1) obtain k where k: "fuel = Suc k"
              by (cases fuel) (simp_all add: hop)
            from "1.prems"(1) k have
              "resolve_refs fs k rd (parent_dir fs (join_path fs current_base s)) = Some (Inr d')"
              by (simp add: hop)
            from "1.IH"(2)[OF Some s True refl target Document k this] show ?thesis .
          qed
        qed
      qed
    qed
  qed
next
  case (2 fs fuel xs current_base)
  from "2.prems" obtain xs' where x: "resolve_elems fs fuel xs current_base = Some (Inr xs')"
    and d': "d' = JArr xs'"
    by (auto simp: resolve_array split: option.splits sum.splits)
  from "2.IH"[OF x] d' show ?case by simp
next
  case (5 fs fuel k v rest current_base)
  from "5.prems" obtain v' rest' where
    v: "resolve_refs fs fuel v current_base = Some (Inr v')"
    and r: "resolve_items fs fuel rest current_base = Some (Inr rest')"
    and e: "kvs' = (k, v') # rest'"
    by (auto simp: resolve_items_Cons split: option.splits sum.splits)
  from "5.IH"(1)[OF v] "5.IH"(2)[OF v refl r] e show ?case by simp
next
  case (7 fs fuel item rest current_base)
  from "7.prems" obtain v' rest' where
    v: "resolve_refs fs fuel item current_base = Some (Inr v')"
    and r: "resolve_elems fs fuel rest current_base = Some (Inr rest')"
    and e: "xs' = v' # rest'"
    by (auto simp: resolve_elems_Cons split: option.splits sum.splits)
  from "7.IH"(1)[OF v] "7.IH"(2)[OF v refl r] e show ?case by simp
qed (auto simp: resolve_refs.simps)

lemma pending_subset_rel:
  "set (pending_refs d) \<subseteq> set (rel_refs d)"
  "set (pending_refs_items kvs) \<subseteq> set (rel_refs_items kvs)"
  "set (pending_refs_elems xs) \<subseteq> set (rel_refs_elems xs)"
  by (induction d and kvs and xs rule: pending_refs_pending_refs_items_pending_refs_elems.induct)
     (auto split: option.splits json.splits if_splits)

subsection \<open>Termination on acyclic reference graphs\<close>

lemma resolve_items_Cons_Some:
  "resolve_refs fs k v b = Some x \<Longrightarrow> resolve_items fs k rest b = Some y \<Longrightarrow>
   resolve_items fs k ((key, v) # rest) b \<noteq> None"
  by (cases x; cases y) (simp_all add: resolve_items_Cons)

lemma resolve_elems_Cons_Some:
  "resolve_refs fs k v b = Some x \<Longrightarrow> resolve_elems fs k rest b = Some y \<Longrightarrow>
   resolve_elems fs k (v # rest) b \<noteq> None"
  by (cases x; cases y) (simp_all add: resolve_elems_Cons)

lemma resolve_returns_if_targets_return:
  assumes H: "\<And>s d'. s \<in> S \<Longrightarrow> files fs (join_path fs b s) = Some (Document d') \<Longrightarrow>
                \<exists>k. resolve_refs fs k d' (parent_dir fs (join_path fs b s)) \<noteq> None"
  shows "set (pending_refs d) \<subseteq> S \<Longrightarrow> \<exists>k. resolve_refs fs k d b \<noteq> None"
    and "set (pending_refs_items kvs) \<subseteq> S \<Longrightarrow> \<exists>k. resolve_items fs k kvs b \<noteq> None"
    and "set (pending_refs_elems xs) \<subseteq> S \<Longrightarrow> \<exists>k. resolve_elems fs k xs b \<noteq> None"
proof (induction d and kvs and xs rule: pending_refs_pending_refs_items_pending_refs_elems.induct)
  case (1 kvs)
  show ?case
  proof (cases "map_of kvs ''$ref''")
    case None
    with "1.prems" have "set (pending_refs_items kvs) \<subseteq> S" by simp
    from "1.IH"[OF None this] obtain k where "resolve_items fs k kvs b \<noteq> None" by blast
    with None have "resolve_refs fs k (JObj kvs) b \<noteq> None"
      by (auto simp: resolve_plain resolve_as_mapping_def split: option.splits sum.splits)
    then show ?thesis by blast
  next
    case (Some v)
    show ?thesis
    proof (cases "\<exists>s. v = JStr s")
      case False
      with Some have "resolve_refs fs 0 (JObj kvs) b \<noteq> None" by (simp add: resolve_not_str)
      then show ?thesis by blast
    next
      case True
      then obtain s where s: "v = JStr s" by blast
      show ?thesis
      proof (cases "is_relative s")
        case False
        with Some s have "resolve_refs fs 0 (JObj kvs) b \<noteq> None" by (simp add: resolve_opaque)
        then show ?thesis by blast
      next
        case True
        with Some s "1.prems" have sS: "s \<in> S" by simp
        show ?thesis
        proof (cases "files fs (join_path fs b s)")
          case None
          with Some s True have "resolve_refs fs 0 (JObj kvs) b \<noteq> None"
            by (simp add: resolve_missing)
          then show ?thesis by blast
        next
          case target: (Some ft)
          show ?thesis
          proof (cases ft)
            case Malformed
            with Some s True target have "resolve_refs fs 0 (JObj kvs) b \<noteq> None"
              by (simp add: resolve_malformed)
            then show ?thesis by blast
          next
            case (Document rd)
            from H[OF sS target[unfolded Document]] obtain k where
              "resolve_refs fs k rd (parent_dir fs (join_path fs b s)) \<noteq> None" by blast
            with resolve_hop[OF Some[unfolded s] True target[unfolded Document], of "Suc k"]
            have "resolve_refs fs (Suc k) (JObj kvs) b \<noteq> None" by simp
            then show ?thesis by blast
          qed
        qed
      qed
    qed
  qed
next
  case (2 xs)
  then have "set (pending_refs_elems xs) \<subseteq> S" by simp
  from "2.IH"[OF this] obtain k where "resolve_elems fs k xs b \<noteq> None" by blast
  then have "resolve_refs fs k (JArr xs) b \<noteq> None"
    by (auto simp: resolve_array split: option.splits sum.splits)
  then show ?case by blast
next
  case (5 k v rest)
  then have "set (pending_refs v) \<subseteq> S" "set (pending_refs_items rest) \<subseteq> S" by simp_all
  with "5.IH" obtain k1 k2 x y where
    a: "resolve_refs fs k1 v b = Some x" "resolve_items fs k2 rest b = Some y" by blast
  have "resolve_refs fs (max k1 k2) v b = Some x" "resolve_items fs (max k1 k2) rest b = Some y"
    by (rule resolve_mono(1)[OF a(1)], simp, rule resolve_mono(2)[OF a(2)], simp)
  then have "resolve_items fs (max k1 k2) ((k, v) # rest) b \<noteq> None"
    by (rule resolve_items_Cons_Some)
  then show ?case by blast
next
  case (7 x rest)
  then have "set (pending_refs x) \<subseteq> S" "set (pending_refs_elems rest) \<subseteq> S" by simp_all
  with "7.IH" obtain k1 k2 r y where
    a: "resolve_refs fs k1 x b = Some r" "resolve_elems fs k2 rest b = Some y" by blast
  have "resolve_refs fs (max k1 k2) x b = Some r" "resolve_elems fs (max k1 k2) rest b = Some y"
    by (rule resolve_mono(1)[OF a(1)], simp, rule resolve_mono(3)[OF a(2)], simp)
  then have "resolve_elems fs (max k1 k2) (x # rest) b \<noteq> None"
    by (rule resolve_elems_Cons_Some)
  then show ?case by blast
qed (simp_all add: resolve_refs.simps)

lemma finite_ref_edges:
  assumes "finite (dom (files fs))"
  shows "finite (ref_edges fs)"
proof -
  let ?out = "\<lambda>p. (\<lambda>s. (p, join_path fs (parent_dir fs p) s)) `
                 (case files fs p of Some (Document d) \<Rightarrow> set (rel_refs d) | _ \<Rightarrow> {})"
  have sub: "ref_edges fs \<subseteq> (\<Union>p \<in> dom (files fs). ?out p)"
    by (auto simp: ref_edges_def)
  have "finite (?out p)" for p
    by (auto split: option.splits file_text.splits)
  with assms have "finite (\<Union>p \<in> dom (files fs). ?out p)"
    by (intro finite_UN_I)
  with sub show ?thesis by (rule finite_subset)
qed

lemma resolve_file_returns:
  assumes "finite (dom (files fs))" and "acyclic (ref_edges fs)"
  shows "files fs p = Some (Document d) \<Longrightarrow> \<exists>k. resolve_refs fs k d (parent_dir fs p) \<noteq> None"
proof -
  from assms have "wf ((ref_edges fs)\<inverse>)"
    by (intro finite_acyclic_wf_converse finite_ref_edges)
  then show "files fs p = Some (Document d) \<Longrightarrow>
      \<exists>k. resolve_refs fs k d (parent_dir fs p) \<noteq> None"
  proof (induction p arbitrary: d rule: wf_induct_rule)
    case (less p)
    show ?case
    proof (rule resolve_returns_if_targets_return(1)[where S = "set (rel_refs d)"])
      fix s d'
      assume s: "s \<in> set (rel_refs d)"
        and t: "files fs (join_path fs (parent_dir fs p) s) = Some (Document d')"
      from s less.prems have "(p, join_path fs (parent_dir fs p) s) \<in> ref_edges fs"
        by (auto simp: ref_edges_def)
      then have "(join_path fs (parent_dir fs p) s, p) \<in> (ref_edges fs)\<inverse>" by simp
      from less.IH[OF this t]
      show "\<exists>k. resolve_refs fs k d' (parent_dir fs (join_path fs (parent_dir fs p) s)) \<noteq> None" .
    next
      show "set (pending_refs d) \<subseteq> set (rel_refs d)" by (rule pending_subset_rel)
    qed
  qed
qed

lemma load_json_with_refs_mono:
  "load_json_with_refs fs n p = Some r \<Longrightarrow> n \<le> m \<Longrightarrow> load_json_with_refs fs m p = Some r"
  by (auto simp: load_json_with_refs_def intro: resolve_mono(1) split: option.splits file_text.splits)

lemma load_json_with_refs_no_pending:
  "load_json_with_refs fs n p = Some (Inr d) \<Longrightarrow> pending_refs d = []"
  by (auto simp: load_json_with_refs_def dest: resolve_result_no_pending(1)
      split: option.splits file_text.splits)

lemma load_json_with_refs_returns:
  assumes "finite (dom (files fs))" and "acyclic (ref_edges fs)"
  shows "\<exists>k. load_json_with_refs fs k p \<noteq> None"
proof (cases "files fs p")
  case None
  then show ?thesis by (simp add: load_json_with_refs_def)
next
  case (Some ft)
  show ?thesis
  proof (cases ft)
    case Malformed
    with Some show ?thesis by (simp add: load_json_with_refs_def)
  next
    case (Document d)
    from resolve_file_returns[OF assms Some[unfolded Document]] Some Document
    show ?thesis by (simp add: load_json_with_refs_def)
  qed
qed

text \<open>
  C4, as the code has it. On a finite file system whose reference graph is acyclic, loading
  any root path ends: some amount of fuel yields an outcome (a document or an exception),
  and more fuel yields the same. A returned document has no relative reference left at
  any position the resolver visits; a relative reference can remain only inside a
  reference node that was returned as it is.
\<close>

theorem load_json_with_refs_terminates:
  assumes "finite (dom (files fs))" and "acyclic (ref_edges fs)"
  shows "\<exists>fuel. load_json_with_refs fs fuel file_path \<noteq> None \<and>
           (\<forall>more. load_json_with_refs fs (fuel + more) file_path =
                    load_json_with_refs fs fuel file_path) \<and>
           (\<forall>data. load_json_with_refs fs fuel file_path = Some (Inr data) \<longrightarrow>
                    pending_refs data = [])"
proof -
  from load_json_with_refs_returns[OF assms] obtain k r where
    k: "load_json_with_refs fs k file_path = Some r" by blast
  have "load_json_with_refs fs (k + more) file_path = load_json_with_refs fs k file_path" for more
    using load_json_with_refs_mono[OF k, of "k + more"] k by simp
  moreover have "\<forall>data. load_json_with_refs fs k file_path = Some (Inr data) \<longrightarrow>
      pending_refs data = []"
    by (intro allI impI) (rule load_json_with_refs_no_pending)
  ultimately show ?thesis using k by (intro exI[of _ k]) simp
qed

lemma acyclic_by_rank:
  assumes "\<And>p q. (p, q) \<in> E \<Longrightarrow> rank q < (rank p :: nat)"
  shows "acyclic E"
proof -
  from assms have "E\<inverse> \<subseteq> measure rank" by auto
  then have "wf (E\<inverse>)" by (rule wf_subset[OF wf_measure])
  then have "acyclic (E\<inverse>)" by (rule wf_acyclic)
  then show ?thesis by (simp only: acyclic_converse)
qed

lemma opaque_fs_edges: "ref_edges opaque_fs \<subseteq> {(''proj/root.json'', ''proj/cpu.json'')}"
  by (auto simp: ref_edges_def opaque_fs_def string_fs_def opaque_doc_def posix_join_def
      posix_parent_def is_relative_def split: if_splits)

lemma opaque_fs_acyclic: "acyclic (ref_edges opaque_fs)"
proof (rule acyclic_by_rank[where rank = "\<lambda>p. if p = ''proj/root.json'' then 1 else 0"])
  fix p q assume "(p, q) \<in> ref_edges opaque_fs"
  with opaque_fs_edges have "p = ''proj/root.json''" "q = ''proj/cpu.json''" by auto
  then show "(if q = ''proj/root.json'' then 1 else 0) < (if p = ''proj/root.json'' then 1 else (0::nat))"
    by simp
qed

text \<open>
  C4 as stated fails: the file system below is finite and its reference graph acyclic, yet
  the document returned for the root still holds a mapping whose \<^verbatim>\<open>$ref\<close> begins with
  \<^verbatim>\<open>./\<close>, inside the reference node that was returned as it is.
\<close>

theorem load_json_with_refs_terminates_counterexample:
  "finite (dom (files opaque_fs)) \<and> acyclic (ref_edges opaque_fs) \<and>
   (\<exists>data. load_json_with_refs opaque_fs 0 ''proj/root.json'' = Some (Inr data) \<and>
      rel_refs data = [''./cpu.json''])"
proof -
  have "finite (dom (files opaque_fs))" by (simp add: opaque_fs_def string_fs_def)
  moreover have "load_json_with_refs opaque_fs 0 ''proj/root.json'' = Some (Inr opaque_doc)"
    by (simp add: load_json_with_refs_def opaque_fs_def string_fs_def opaque_doc_def
        resolve_refs.simps is_relative_def)
  moreover have "rel_refs opaque_doc = [''./cpu.json'']"
    by (simp add: opaque_doc_def is_relative_def)
  ultimately show ?thesis using opaque_fs_acyclic by simp
qed

lemma chain_fs_edges:
  "ref_edges chain_fs \<subseteq> {(''proj/root.json'', ''proj/alu/alu.json''),
                            (''proj/alu/alu.json'', ''proj/alu/adder.json'')}"
  by (auto simp: ref_edges_def chain_fs_def string_fs_def mk_module_def posix_join_def
      posix_parent_def is_relative_def split: if_splits)

lemma chain_fs_acyclic: "acyclic (ref_edges chain_fs)"
proof (rule acyclic_by_rank[where rank = "\<lambda>p. 100 - length p"])
  fix p q assume "(p, q) \<in> ref_edges chain_fs"
  with chain_fs_edges have "(p = ''proj/root.json'' \<and> q = ''proj/alu/alu.json'') \<or>
    (p = ''proj/alu/alu.json'' \<and> q = ''proj/alu/adder.json'')" by auto
  then show "100 - length q < 100 - length p" by auto
qed

theorem load_json_with_refs_terminates_witness:
  "finite (dom (files chain_fs)) \<and> acyclic (ref_edges chain_fs) \<and>
   (\<exists>fuel. load_json_with_refs chain_fs fuel ''proj/root.json'' \<noteq> None \<and>
      (\<forall>more. load_json_with_refs chain_fs (fuel + more) ''proj/root.json'' =
               load_json_with_refs chain_fs fuel ''proj/root.json'') \<and>
      (\<forall>data. load_json_with_refs chain_fs fuel ''proj/root.json'' = Some (Inr data) \<longrightarrow>
               pending_refs data = []))"
proof -
  have f: "finite (dom (files chain_fs))" by (simp add: chain_fs_def string_fs_def)
  from load_json_with_refs_terminates [OF f chain_fs_acyclic, of "''proj/root.json''"]
    f chain_fs_acyclic
  show ?thesis by (intro conjI)
qed

subsection \<open>The resolver and the relation\<close>

lemma not_is_str: "\<not> is_str v \<longleftrightarrow> (\<forall>s. v \<noteq> JStr s)"
  by (cases v) simp_all

lemma resolve_sound:
  "resolve_refs fs n d b = Some r \<Longrightarrow> spec_resolves fs b d r"
  "resolve_items fs n kvs b = Some ri \<Longrightarrow> spec_resolves_items fs b kvs ri"
  "resolve_elems fs n xs b = Some re \<Longrightarrow> spec_resolves_elems fs b xs re"
proof (induction fs n d b and fs n kvs b and fs n xs b arbitrary: r and ri and re
       rule: resolve_refs_resolve_items_resolve_elems.induct)
  case (1 fs fuel kvs current_base)
  show ?case
  proof (cases "map_of kvs ''$ref''")
    case None
    from "1.prems" None obtain ri where x: "resolve_items fs fuel kvs current_base = Some ri"
      and r: "r = (case ri of Inl e \<Rightarrow> Inl e | Inr kvs' \<Rightarrow> Inr (JObj kvs'))"
      by (auto simp: resolve_plain resolve_as_mapping_def split: option.splits sum.splits)
    from "1.IH"(1)[OF None x] have "spec_resolves_items fs current_base kvs ri" .
    with None r show ?thesis
      by (cases ri) (auto intro: spec_resolves_spec_resolves_items_spec_resolves_elems.mapping
          spec_resolves_spec_resolves_items_spec_resolves_elems.mapping_raises)
  next
    case (Some v)
    show ?thesis
    proof (cases "\<exists>s. v = JStr s")
      case False
      then have ns: "\<not> is_str v" by (simp add: not_is_str)
      from False Some "1.prems" have "r = Inl (AttributeError v)" by (simp add: resolve_not_str)
      with Some ns show ?thesis
        by (simp add: spec_resolves_spec_resolves_items_spec_resolves_elems.not_str)
    next
      case True
      then obtain s where s: "v = JStr s" by blast
      show ?thesis
      proof (cases "is_relative s")
        case False
        with Some s "1.prems" show ?thesis
          by (auto simp: resolve_opaque intro: spec_resolves_spec_resolves_items_spec_resolves_elems.opaque)
      next
        case True
        show ?thesis
        proof (cases "files fs (join_path fs current_base s)")
          case None
          with Some s True "1.prems" show ?thesis
            by (auto simp: resolve_missing intro: spec_resolves_spec_resolves_items_spec_resolves_elems.missing)
        next
          case target: (Some ft)
          show ?thesis
          proof (cases ft)
            case Malformed
            with Some s True target "1.prems" show ?thesis
              by (auto simp: resolve_malformed intro: spec_resolves_spec_resolves_items_spec_resolves_elems.malformed)
          next
            case (Document rd)
            note hop = resolve_hop[OF Some[unfolded s] True target[unfolded Document]]
            from "1.prems"(1) obtain k where k: "fuel = Suc k"
              by (cases fuel) (simp_all add: hop)
            from "1.prems"(1) k have
              "resolve_refs fs k rd (parent_dir fs (join_path fs current_base s)) = Some r"
              by (simp add: hop)
            from "1.IH"(2)[OF Some s True refl target Document k this]
            have "spec_resolves fs (parent_dir fs (join_path fs current_base s)) rd r" .
            with Some s True target Document show ?thesis
              by (intro spec_resolves_spec_resolves_items_spec_resolves_elems.target[of kvs s fs current_base rd]) simp_all
          qed
        qed
      qed
    qed
  qed
next
  case (2 fs fuel xs current_base)
  from "2.prems" obtain re where x: "resolve_elems fs fuel xs current_base = Some re"
    and r: "r = (case re of Inl e \<Rightarrow> Inl e | Inr xs' \<Rightarrow> Inr (JArr xs'))"
    by (auto simp: resolve_array split: option.splits sum.splits)
  from "2.IH"[OF x] r show ?case
    by (cases re) (auto intro: spec_resolves_spec_resolves_items_spec_resolves_elems.sequence
          spec_resolves_spec_resolves_items_spec_resolves_elems.sequence_raises)
next
  case (5 fs fuel k v rest current_base)
  from "5.prems"(1) obtain x where x: "resolve_refs fs fuel v current_base = Some x"
    by (auto simp: resolve_items_Cons split: option.splits)
  note a = "5.IH"(1)[OF x]
  show ?case
  proof (cases x)
    case (Inl e)
    with x a "5.prems"(1) show ?thesis
      by (auto simp: resolve_items_Cons intro: spec_resolves_spec_resolves_items_spec_resolves_elems.item_raises)
  next
    case (Inr v')
    with "5.prems"(1) x obtain y where y: "resolve_items fs fuel rest current_base = Some y"
      by (auto simp: resolve_items_Cons split: option.splits)
    from "5.IH"(2)[OF x Inr y] a x Inr y "5.prems"(1) show ?thesis
      by (cases y) (auto simp: resolve_items_Cons intro: spec_resolves_spec_resolves_items_spec_resolves_elems.items
          spec_resolves_spec_resolves_items_spec_resolves_elems.later_item_raises)
  qed
next
  case (7 fs fuel item rest current_base)
  from "7.prems"(1) obtain x where x: "resolve_refs fs fuel item current_base = Some x"
    by (auto simp: resolve_elems_Cons split: option.splits)
  note a = "7.IH"(1)[OF x]
  show ?case
  proof (cases x)
    case (Inl e)
    with x a "7.prems"(1) show ?thesis
      by (auto simp: resolve_elems_Cons intro: spec_resolves_spec_resolves_items_spec_resolves_elems.elem_raises)
  next
    case (Inr v')
    with "7.prems"(1) x obtain y where y: "resolve_elems fs fuel rest current_base = Some y"
      by (auto simp: resolve_elems_Cons split: option.splits)
    from "7.IH"(2)[OF x Inr y] a x Inr y "7.prems"(1) show ?thesis
      by (cases y) (auto simp: resolve_elems_Cons intro: spec_resolves_spec_resolves_items_spec_resolves_elems.elems
          spec_resolves_spec_resolves_items_spec_resolves_elems.later_elem_raises)
  qed
qed (auto simp: resolve_refs.simps intro: spec_resolves_spec_resolves_items_spec_resolves_elems.intros)

lemma resolve_complete:
  "spec_resolves fs b d r \<Longrightarrow> \<exists>n. resolve_refs fs n d b = Some r"
  "spec_resolves_items fs b kvs ri \<Longrightarrow> \<exists>n. resolve_items fs n kvs b = Some ri"
  "spec_resolves_elems fs b xs re \<Longrightarrow> \<exists>n. resolve_elems fs n xs b = Some re"
proof (induction rule: spec_resolves_spec_resolves_items_spec_resolves_elems.inducts)
  case (target kvs ref_path current_base ref_data r)
  then obtain n where "resolve_refs fs n ref_data (parent_dir fs (join_path fs current_base ref_path)) = Some r"
    by blast
  with resolve_hop[OF target(1,2,3), of "Suc n"] show ?case by (intro exI[of _ "Suc n"]) simp
next
  case (missing kvs ref_path current_base)
  then show ?case by (simp add: resolve_missing)
next
  case (malformed kvs ref_path current_base)
  then show ?case by (simp add: resolve_malformed)
next
  case (opaque kvs ref_path current_base)
  then show ?case by (simp add: resolve_opaque)
next
  case (not_str kvs v current_base)
  then show ?case by (simp add: resolve_not_str not_is_str)
next
  case (mapping kvs current_base kvs')
  then obtain n where "resolve_items fs n kvs current_base = Some (Inr kvs')" by blast
  with mapping(1) show ?case
    by (intro exI[of _ n]) (simp add: resolve_plain resolve_as_mapping_def)
next
  case (mapping_raises kvs current_base e)
  then obtain n where "resolve_items fs n kvs current_base = Some (Inl e)" by blast
  with mapping_raises(1) show ?case
    by (intro exI[of _ n]) (simp add: resolve_plain resolve_as_mapping_def)
next
  case (sequence current_base xs xs')
  then obtain n where "resolve_elems fs n xs current_base = Some (Inr xs')" by blast
  then show ?case by (intro exI[of _ n]) (simp add: resolve_array)
next
  case (sequence_raises current_base xs e)
  then obtain n where "resolve_elems fs n xs current_base = Some (Inl e)" by blast
  then show ?case by (intro exI[of _ n]) (simp add: resolve_array)
next
  case (items current_base v v' rest rest' k)
  then obtain n1 n2 where a: "resolve_refs fs n1 v current_base = Some (Inr v')"
    "resolve_items fs n2 rest current_base = Some (Inr rest')" by blast
  have "resolve_refs fs (max n1 n2) v current_base = Some (Inr v')"
    "resolve_items fs (max n1 n2) rest current_base = Some (Inr rest')"
    by (rule resolve_mono(1)[OF a(1)], simp, rule resolve_mono(2)[OF a(2)], simp)
  then show ?case by (intro exI[of _ "max n1 n2"]) (simp add: resolve_items_Cons)
next
  case (item_raises current_base v e k rest)
  then obtain n where "resolve_refs fs n v current_base = Some (Inl e)" by blast
  then show ?case by (intro exI[of _ n]) (simp add: resolve_items_Cons)
next
  case (later_item_raises current_base v v' rest e k)
  then obtain n1 n2 where a: "resolve_refs fs n1 v current_base = Some (Inr v')"
    "resolve_items fs n2 rest current_base = Some (Inl e)" by blast
  have "resolve_refs fs (max n1 n2) v current_base = Some (Inr v')"
    "resolve_items fs (max n1 n2) rest current_base = Some (Inl e)"
    by (rule resolve_mono(1)[OF a(1)], simp, rule resolve_mono(2)[OF a(2)], simp)
  then show ?case by (intro exI[of _ "max n1 n2"]) (simp add: resolve_items_Cons)
next
  case (elems current_base x x' rest rest')
  then obtain n1 n2 where a: "resolve_refs fs n1 x current_base = Some (Inr x')"
    "resolve_elems fs n2 rest current_base = Some (Inr rest')" by blast
  have "resolve_refs fs (max n1 n2) x current_base = Some (Inr x')"
    "resolve_elems fs (max n1 n2) rest current_base = Some (Inr rest')"
    by (rule resolve_mono(1)[OF a(1)], simp, rule resolve_mono(3)[OF a(2)], simp)
  then show ?case by (intro exI[of _ "max n1 n2"]) (simp add: resolve_elems_Cons)
next
  case (elem_raises current_base x e rest)
  then obtain n where "resolve_refs fs n x current_base = Some (Inl e)" by blast
  then show ?case by (intro exI[of _ n]) (simp add: resolve_elems_Cons)
next
  case (later_elem_raises current_base x x' rest e)
  then obtain n1 n2 where a: "resolve_refs fs n1 x current_base = Some (Inr x')"
    "resolve_elems fs n2 rest current_base = Some (Inl e)" by blast
  have "resolve_refs fs (max n1 n2) x current_base = Some (Inr x')"
    "resolve_elems fs (max n1 n2) rest current_base = Some (Inl e)"
    by (rule resolve_mono(1)[OF a(1)], simp, rule resolve_mono(3)[OF a(2)], simp)
  then show ?case by (intro exI[of _ "max n1 n2"]) (simp add: resolve_elems_Cons)
qed (simp_all add: resolve_refs.simps)

lemma resolves_iff: "spec_resolves fs b d r \<longleftrightarrow> (\<exists>n. resolve_refs fs n d b = Some r)"
proof
  assume "spec_resolves fs b d r"
  then show "\<exists>n. resolve_refs fs n d b = Some r" by (rule resolve_complete(1))
next
  assume "\<exists>n. resolve_refs fs n d b = Some r"
  then obtain n where "resolve_refs fs n d b = Some r" ..
  then show "spec_resolves fs b d r" by (rule resolve_sound(1))
qed

lemma ref_free_resolve:
  "ref_free d \<Longrightarrow> resolve_refs fs n d b = Some (Inr d)"
  "ref_free_items kvs \<Longrightarrow> resolve_items fs n kvs b = Some (Inr kvs)"
  "ref_free_elems xs \<Longrightarrow> resolve_elems fs n xs b = Some (Inr xs)"
  by (induction d and kvs and xs rule: ref_free_ref_free_items_ref_free_elems.induct)
     (simp_all add: resolve_plain resolve_as_mapping_def resolve_array resolve_items_Cons
        resolve_elems_Cons resolve_scalar)

lemma resolve_items_member:
  "resolve_items fs n kvs b = Some (Inr kvs') \<Longrightarrow> (k, v) \<in> set kvs \<Longrightarrow>
   \<exists>v'. resolve_refs fs n v b = Some (Inr v')"
proof (induction kvs arbitrary: kvs')
  case Nil
  then show ?case by simp
next
  case (Cons kv kvs)
  obtain k0 v0 where kv: "kv = (k0, v0)" by (cases kv)
  from Cons.prems(1) kv obtain v0' rest' where
    a: "resolve_refs fs n v0 b = Some (Inr v0')" "resolve_items fs n kvs b = Some (Inr rest')"
    by (auto simp: resolve_items_Cons split: option.splits sum.splits)
  from Cons.prems(2) kv consider "v = v0" | "(k, v) \<in> set kvs" by auto
  then show ?case
  proof cases
    case 1
    with a(1) show ?thesis by blast
  next
    case 2
    from Cons.IH[OF a(2) 2] show ?thesis .
  qed
qed

lemma resolve_elems_member:
  "resolve_elems fs n xs b = Some (Inr xs') \<Longrightarrow> x \<in> set xs \<Longrightarrow>
   \<exists>x'. resolve_refs fs n x b = Some (Inr x')"
proof (induction xs arbitrary: xs')
  case Nil
  then show ?case by simp
next
  case (Cons x0 xs)
  from Cons.prems(1) obtain x0' rest' where
    a: "resolve_refs fs n x0 b = Some (Inr x0')" "resolve_elems fs n xs b = Some (Inr rest')"
    by (auto simp: resolve_elems_Cons split: option.splits sum.splits)
  from Cons.prems(2) consider "x = x0" | "x \<in> set xs" by auto
  then show ?case
  proof cases
    case 1
    with a(1) show ?thesis by blast
  next
    case 2
    from Cons.IH[OF a(2) 2] show ?thesis .
  qed
qed

lemma reaches_missing_no_result:
  assumes "reaches fs b obj b' s" and "files fs (join_path fs b' s) = None"
  shows "resolve_refs fs n obj b \<noteq> Some (Inr data)"
  using assms
proof (induction arbitrary: n data rule: reaches.induct)
  case (node kvs ref_path current_base)
  then show ?case by (simp add: resolve_missing)
next
  case (through kvs ref_path current_base ref_data base' ref_path')
  note hop = resolve_hop[OF through(1,2,3), of n]
  show ?case
  proof (cases n)
    case 0
    with hop show ?thesis by simp
  next
    case (Suc k)
    with hop through.IH[OF through.prems, of k data] show ?thesis by simp
  qed
next
  case (item kvs k v current_base base' ref_path')
  show ?case
  proof
    assume "resolve_refs fs n (JObj kvs) current_base = Some (Inr data)"
    with item(1) obtain kvs' where "resolve_items fs n kvs current_base = Some (Inr kvs')"
      by (auto simp: resolve_plain resolve_as_mapping_def split: option.splits sum.splits)
    from resolve_items_member[OF this item(2)] item.IH[OF item.prems] show False by blast
  qed
next
  case (elem x xs current_base base' ref_path')
  show ?case
  proof
    assume "resolve_refs fs n (JArr xs) current_base = Some (Inr data)"
    then obtain xs' where "resolve_elems fs n xs current_base = Some (Inr xs')"
      by (auto simp: resolve_array split: option.splits sum.splits)
    from resolve_elems_member[OF this elem(1)] elem.IH[OF elem.prems] show False by blast
  qed
qed

lemma reaches_first_resolves:
  assumes m: "files fs (join_path fs b' s) = None"
  shows "reaches_first fs b obj b' s \<Longrightarrow> spec_resolves fs b obj (Inl (FileNotFoundError (join_path fs b' s)))"
    and "reaches_first_items fs b kvs b' s \<Longrightarrow>
           spec_resolves_items fs b kvs (Inl (FileNotFoundError (join_path fs b' s)))"
    and "reaches_first_elems fs b xs b' s \<Longrightarrow>
           spec_resolves_elems fs b xs (Inl (FileNotFoundError (join_path fs b' s)))"
  using m
  by (induction rule: reaches_first_reaches_first_items_reaches_first_elems.inducts)
     (auto intro: spec_resolves_spec_resolves_items_spec_resolves_elems.intros)

lemma resolves_not_found:
  "spec_resolves fs b obj r \<Longrightarrow> r = Inl (FileNotFoundError q) \<Longrightarrow>
     \<exists>b' s. reaches_first fs b obj b' s \<and> q = join_path fs b' s \<and> files fs q = None"
  "spec_resolves_items fs b kvs ri \<Longrightarrow> ri = Inl (FileNotFoundError q) \<Longrightarrow>
     \<exists>b' s. reaches_first_items fs b kvs b' s \<and> q = join_path fs b' s \<and> files fs q = None"
  "spec_resolves_elems fs b xs re \<Longrightarrow> re = Inl (FileNotFoundError q) \<Longrightarrow>
     \<exists>b' s. reaches_first_elems fs b xs b' s \<and> q = join_path fs b' s \<and> files fs q = None"
proof (induction rule: spec_resolves_spec_resolves_items_spec_resolves_elems.inducts)
  case (target kvs ref_path current_base ref_data r)
  then obtain b' s where
    a: "reaches_first fs (parent_dir fs (join_path fs current_base ref_path)) ref_data b' s"
    "q = join_path fs b' s" "files fs q = None" by blast
  from target(1,2,3) a(1) have "reaches_first fs current_base (JObj kvs) b' s"
    by (rule reaches_first_reaches_first_items_reaches_first_elems.first_through)
  with a(2,3) show ?case by blast
next
  case (missing kvs ref_path current_base)
  from missing(1,2) have "reaches_first fs current_base (JObj kvs) current_base ref_path"
    by (rule reaches_first_reaches_first_items_reaches_first_elems.first_node)
  with missing show ?case by auto
next
  case (mapping_raises kvs current_base e)
  then obtain b' s where
    a: "reaches_first_items fs current_base kvs b' s" "q = join_path fs b' s" "files fs q = None"
    by blast
  from mapping_raises(1) a(1) have "reaches_first fs current_base (JObj kvs) b' s"
    by (rule reaches_first_reaches_first_items_reaches_first_elems.first_mapping)
  with a(2,3) show ?case by blast
next
  case (sequence_raises current_base xs e)
  then obtain b' s where
    a: "reaches_first_elems fs current_base xs b' s" "q = join_path fs b' s" "files fs q = None"
    by blast
  from a(1) have "reaches_first fs current_base (JArr xs) b' s"
    by (rule reaches_first_reaches_first_items_reaches_first_elems.first_sequence)
  with a(2,3) show ?case by blast
next
  case (item_raises current_base v e k rest)
  then obtain b' s where
    a: "reaches_first fs current_base v b' s" "q = join_path fs b' s" "files fs q = None"
    by blast
  from a(1) have "reaches_first_items fs current_base ((k, v) # rest) b' s"
    by (rule reaches_first_reaches_first_items_reaches_first_elems.first_item)
  with a(2,3) show ?case by blast
next
  case (later_item_raises current_base v v' rest e k)
  then obtain b' s where
    a: "reaches_first_items fs current_base rest b' s" "q = join_path fs b' s" "files fs q = None"
    by blast
  from later_item_raises(1) a(1) have "reaches_first_items fs current_base ((k, v) # rest) b' s"
    by (rule reaches_first_reaches_first_items_reaches_first_elems.later_item)
  with a(2,3) show ?case by blast
next
  case (elem_raises current_base x e rest)
  then obtain b' s where
    a: "reaches_first fs current_base x b' s" "q = join_path fs b' s" "files fs q = None"
    by blast
  from a(1) have "reaches_first_elems fs current_base (x # rest) b' s"
    by (rule reaches_first_reaches_first_items_reaches_first_elems.first_elem)
  with a(2,3) show ?case by blast
next
  case (later_elem_raises current_base x x' rest e)
  then obtain b' s where
    a: "reaches_first_elems fs current_base rest b' s" "q = join_path fs b' s" "files fs q = None"
    by blast
  from later_elem_raises(1) a(1) have "reaches_first_elems fs current_base (x # rest) b' s"
    by (rule reaches_first_reaches_first_items_reaches_first_elems.later_elem)
  with a(2,3) show ?case by blast
qed simp_all

lemma reaches_first_reaches:
  "reaches_first fs b obj b' s \<Longrightarrow> reaches fs b obj b' s"
  "reaches_first_items fs b kvs b' s \<Longrightarrow> \<exists>k v. (k, v) \<in> set kvs \<and> reaches fs b v b' s"
  "reaches_first_elems fs b xs b' s \<Longrightarrow> \<exists>x. x \<in> set xs \<and> reaches fs b x b' s"
proof (induction rule: reaches_first_reaches_first_items_reaches_first_elems.inducts)
  case (first_node kvs ref_path current_base)
  then show ?case by (rule reaches.node)
next
  case (first_through kvs ref_path current_base ref_data base' ref_path')
  from first_through(1,2,3,5) show ?case by (rule reaches.through)
next
  case (first_mapping kvs current_base base' ref_path')
  then obtain k v where "(k, v) \<in> set kvs" "reaches fs current_base v base' ref_path'" by blast
  with first_mapping(1) show ?case by (rule reaches.item)
next
  case (first_sequence current_base xs base' ref_path')
  then obtain x where "x \<in> set xs" "reaches fs current_base x base' ref_path'" by blast
  then show ?case by (rule reaches.elem)
next
  case (first_item current_base v base' ref_path' k rest)
  then show ?case by auto
next
  case (later_item current_base v v' rest base' ref_path' k)
  then show ?case by auto
next
  case (first_elem current_base x base' ref_path' rest)
  then show ?case by auto
next
  case (later_elem current_base x x' rest base' ref_path')
  then show ?case by auto
qed

lemma reaches_first_skip_str:
  "reaches_first_items fs b rest b' s \<Longrightarrow> reaches_first_items fs b ((k, JStr x) # rest) b' s"
  by (rule reaches_first_reaches_first_items_reaches_first_elems.later_item,
      rule spec_resolves_spec_resolves_items_spec_resolves_elems.scalar_str)

lemma load_target:
  assumes "map_of kvs ''$ref'' = Some (JStr s)" "is_relative s"
  shows "resolve_refs fs (Suc fuel) (JObj kvs) b = load_json_with_refs fs fuel (join_path fs b s)"
proof (cases "files fs (join_path fs b s)")
  case None
  with assms show ?thesis by (simp add: resolve_missing load_json_with_refs_def)
next
  case (Some ft)
  show ?thesis
  proof (cases ft)
    case Malformed
    with assms Some show ?thesis by (simp add: resolve_malformed load_json_with_refs_def)
  next
    case (Document d)
    with assms Some show ?thesis by (simp add: resolve_hop load_json_with_refs_def)
  qed
qed

subsection \<open>What counts as a reference node\<close>

text \<open>
  C5, as the code has it. A mapping is a reference node exactly when it has the key
  \<^verbatim>\<open>$ref\<close>, whatever else it holds. With a relative path it is replaced by its resolved
  target: its outcome is what loading the file \<^verbatim>\<open>current_base / ref_path\<close> with its references
  resolved gives, which for a file that parses is its document resolved relative to the
  directory of that file, and this very document when it holds no reference (for a file
  that is missing or does not parse it is the exception carrying the path of that file).
  The other items of the node play no part. With another string the mapping is returned as it is,
  its other items unresolved; a \<^verbatim>\<open>$ref\<close> that is not a string raises \<^verbatim>\<open>AttributeError\<close>. Only a
  mapping without the key is resolved as an ordinary mapping. Altogether the outcomes of the
  resolver, for any amount of fuel, are those of the relation \<open>spec_resolves\<close>.
\<close>

theorem resolve_refs_reference_node:
  "(map_of kvs ''$ref'' = None \<longrightarrow>
      resolve_refs fs fuel (JObj kvs) current_base = resolve_as_mapping fs fuel kvs current_base) \<and>
   (\<forall>ref_path. map_of kvs ''$ref'' = Some (JStr ref_path) \<longrightarrow>
      (if is_relative ref_path
       then resolve_refs fs (Suc fuel) (JObj kvs) current_base =
              load_json_with_refs fs fuel (join_path fs current_base ref_path) \<and>
            (\<forall>ref_data. files fs (join_path fs current_base ref_path) = Some (Document ref_data) \<longrightarrow>
               resolve_refs fs 0 (JObj kvs) current_base = None \<and>
               resolve_refs fs (Suc fuel) (JObj kvs) current_base =
                 resolve_refs fs fuel ref_data (parent_dir fs (join_path fs current_base ref_path)) \<and>
               (ref_free ref_data \<longrightarrow>
                  resolve_refs fs (Suc fuel) (JObj kvs) current_base = Some (Inr ref_data)))
       else resolve_refs fs fuel (JObj kvs) current_base = Some (Inr (JObj kvs)))) \<and>
   (\<forall>v. map_of kvs ''$ref'' = Some v \<and> \<not> is_str v \<longrightarrow>
      resolve_refs fs fuel (JObj kvs) current_base = Some (Inl (AttributeError v))) \<and>
   (\<forall>obj r. (\<exists>n. resolve_refs fs n obj current_base = Some r) = spec_resolves fs current_base obj r)"
proof (intro conjI allI impI)
  assume "map_of kvs ''$ref'' = None"
  then show "resolve_refs fs fuel (JObj kvs) current_base = resolve_as_mapping fs fuel kvs current_base"
    by (rule resolve_plain)
next
  fix ref_path
  assume r: "map_of kvs ''$ref'' = Some (JStr ref_path)"
  show "if is_relative ref_path
       then resolve_refs fs (Suc fuel) (JObj kvs) current_base =
              load_json_with_refs fs fuel (join_path fs current_base ref_path) \<and>
            (\<forall>ref_data. files fs (join_path fs current_base ref_path) = Some (Document ref_data) \<longrightarrow>
               resolve_refs fs 0 (JObj kvs) current_base = None \<and>
               resolve_refs fs (Suc fuel) (JObj kvs) current_base =
                 resolve_refs fs fuel ref_data (parent_dir fs (join_path fs current_base ref_path)) \<and>
               (ref_free ref_data \<longrightarrow>
                  resolve_refs fs (Suc fuel) (JObj kvs) current_base = Some (Inr ref_data)))
       else resolve_refs fs fuel (JObj kvs) current_base = Some (Inr (JObj kvs))"
  proof (cases "is_relative ref_path")
    case False
    with r show ?thesis by (simp add: resolve_opaque)
  next
    case True
    have A: "resolve_refs fs (Suc fuel) (JObj kvs) current_base =
              load_json_with_refs fs fuel (join_path fs current_base ref_path)"
      using r True by (rule load_target)
    have B: "\<forall>ref_data. files fs (join_path fs current_base ref_path) = Some (Document ref_data) \<longrightarrow>
               resolve_refs fs 0 (JObj kvs) current_base = None \<and>
               resolve_refs fs (Suc fuel) (JObj kvs) current_base =
                 resolve_refs fs fuel ref_data (parent_dir fs (join_path fs current_base ref_path)) \<and>
               (ref_free ref_data \<longrightarrow>
                  resolve_refs fs (Suc fuel) (JObj kvs) current_base = Some (Inr ref_data))"
    proof (intro allI impI conjI)
      fix ref_data
      assume t: "files fs (join_path fs current_base ref_path) = Some (Document ref_data)"
      show "resolve_refs fs 0 (JObj kvs) current_base = None"
        by (simp add: resolve_hop[OF r True t])
      show h: "resolve_refs fs (Suc fuel) (JObj kvs) current_base =
                 resolve_refs fs fuel ref_data (parent_dir fs (join_path fs current_base ref_path))"
        by (simp add: resolve_hop[OF r True t])
      assume "ref_free ref_data"
      then show "resolve_refs fs (Suc fuel) (JObj kvs) current_base = Some (Inr ref_data)"
        by (simp only: h ref_free_resolve(1))
    qed
    show ?thesis unfolding if_P[OF True] by (intro conjI A B)
  qed
next
  fix v assume "map_of kvs ''$ref'' = Some v \<and> \<not> is_str v"
  then show "resolve_refs fs fuel (JObj kvs) current_base = Some (Inl (AttributeError v))"
    by (simp add: resolve_not_str not_is_str)
next
  fix obj r
  show "(\<exists>n. resolve_refs fs n obj current_base = Some r) = spec_resolves fs current_base obj r"
    by (simp add: resolves_iff)
qed

text \<open>
  C5 as stated fails: a mapping with \<^verbatim>\<open>$ref\<close> and a further key is replaced by its target,
  where resolving it as an ordinary mapping would keep both items.
\<close>

theorem resolve_refs_reference_node_counterexample:
  "has_key ''$ref'' sibling_node \<and> has_key ''name'' sibling_node \<and>
   resolve_refs sibling_fs 1 (JObj sibling_node) ''proj'' = Some (Inr (mk_module ''alu'' [])) \<and>
   resolve_as_mapping sibling_fs 1 sibling_node ''proj'' = Some (Inr (JObj sibling_node)) \<and>
   resolve_refs sibling_fs 1 (JObj sibling_node) ''proj'' \<noteq>
     resolve_as_mapping sibling_fs 1 sibling_node ''proj''"
  by (simp add: sibling_node_def sibling_fs_def string_fs_def has_key_def mk_module_def
      resolve_refs.simps resolve_as_mapping_def is_relative_def posix_join_def Let_def)

theorem resolve_refs_reference_node_witness:
  "has_key ''$ref'' sibling_node \<and> has_key ''name'' sibling_node \<and>
   map_of sibling_node ''$ref'' = Some (JStr ''./alu.json'') \<and> is_relative ''./alu.json'' \<and>
   files sibling_fs (join_path sibling_fs ''proj'' ''./alu.json'') = Some (Document (mk_module ''alu'' [])) \<and>
   ref_free (mk_module ''alu'' []) \<and>
   resolve_refs sibling_fs 1 (JObj sibling_node) ''proj'' = Some (Inr (mk_module ''alu'' [])) \<and>
   resolve_refs sibling_fs 1 (JObj sibling_node) ''proj'' =
     load_json_with_refs sibling_fs 0 ''proj/alu.json'' \<and>
   spec_resolves sibling_fs ''proj'' (JObj sibling_node) (Inr (mk_module ''alu'' []))"
proof -
  have k: "has_key ''$ref'' sibling_node" "has_key ''name'' sibling_node"
    by (simp_all add: sibling_node_def has_key_def)
  have m: "map_of sibling_node ''$ref'' = Some (JStr ''./alu.json'')"
    by (simp add: sibling_node_def)
  have r: "is_relative ''./alu.json''" by (simp add: is_relative_def)
  have j: "join_path sibling_fs ''proj'' ''./alu.json'' = ''proj/alu.json''"
    by (simp add: sibling_fs_def string_fs_def posix_join_def)
  have f: "files sibling_fs (join_path sibling_fs ''proj'' ''./alu.json'') =
      Some (Document (mk_module ''alu'' []))"
    by (simp add: sibling_fs_def string_fs_def posix_join_def)
  have rf: "ref_free (mk_module ''alu'' [])" by (simp add: mk_module_def)
  note t = resolve_refs_reference_node [where kvs = sibling_node and fs = sibling_fs and fuel = 0
      and current_base = "''proj''"]
  note u = t[THEN conjunct2, THEN conjunct1, rule_format, OF m, unfolded if_P[OF r]]
  from u[THEN conjunct2, rule_format, OF f] rf
  have a: "resolve_refs sibling_fs (Suc 0) (JObj sibling_node) ''proj'' =
      Some (Inr (mk_module ''alu'' []))" by blast
  from u[THEN conjunct1] j
  have b: "resolve_refs sibling_fs (Suc 0) (JObj sibling_node) ''proj'' =
      load_json_with_refs sibling_fs 0 ''proj/alu.json''" by simp
  have c: "spec_resolves sibling_fs ''proj'' (JObj sibling_node) (Inr (mk_module ''alu'' []))"
    by (rule iffD1[OF t[THEN conjunct2, THEN conjunct2, THEN conjunct2, rule_format]])
       (rule exI[of _ "Suc 0"], rule a)
  from a b have a': "resolve_refs sibling_fs 1 (JObj sibling_node) ''proj'' =
      Some (Inr (mk_module ''alu'' []))"
    and b': "resolve_refs sibling_fs 1 (JObj sibling_node) ''proj'' =
      load_json_with_refs sibling_fs 0 ''proj/alu.json''" by simp_all
  show ?thesis by (intro conjI k m r f rf a' b' c)
qed

subsection \<open>Missing targets\<close>

text \<open>
  C6, as the code has it. Let \<open>base / ref_path\<close> name a file that does not exist. A reference
  node with the relative path \<open>ref_path\<close>, met while the current base is \<open>base\<close>, raises
  \<^verbatim>\<open>FileNotFoundError\<close> carrying exactly that path. A document in which the resolver reaches
  such a node, at once or inside the files that are referenced, any number of files away,
  never yields a document, whole or partial. When everything visited before the node
  resolves, resolving the document, and loading the file that holds it, raise
  \<^verbatim>\<open>FileNotFoundError\<close> with exactly the path of that node, \<open>base\<close> being the directory of the file
  in which the node stands. Every \<^verbatim>\<open>FileNotFoundError\<close> that resolution raises comes about in
  this way and names a path that does not exist.
\<close>

theorem resolve_refs_missing_target:
  assumes "files fs (join_path fs base ref_path) = None"
  shows "(\<forall>kvs. map_of kvs ''$ref'' = Some (JStr ref_path) \<and> is_relative ref_path \<longrightarrow>
            (\<forall>fuel. resolve_refs fs fuel (JObj kvs) base =
               Some (Inl (FileNotFoundError (join_path fs base ref_path))))) \<and>
         (reaches fs current_base obj base ref_path \<longrightarrow>
            (\<forall>fuel data. resolve_refs fs fuel obj current_base \<noteq> Some (Inr data))) \<and>
         (reaches_first fs current_base obj base ref_path \<longrightarrow>
            (\<exists>fuel. \<forall>more. resolve_refs fs (fuel + more) obj current_base =
               Some (Inl (FileNotFoundError (join_path fs base ref_path))))) \<and>
         (\<forall>file_path. files fs file_path = Some (Document obj) \<and>
            reaches_first fs (parent_dir fs file_path) obj base ref_path \<longrightarrow>
            (\<exists>fuel. \<forall>more. load_json_with_refs fs (fuel + more) file_path =
               Some (Inl (FileNotFoundError (join_path fs base ref_path))))) \<and>
         (\<forall>fuel q. resolve_refs fs fuel obj current_base = Some (Inl (FileNotFoundError q)) \<longrightarrow>
            files fs q = None \<and>
            (\<exists>base' ref_path'. reaches_first fs current_base obj base' ref_path' \<and>
               q = join_path fs base' ref_path'))"
proof -
  have first: "\<exists>fuel. \<forall>more. resolve_refs fs (fuel + more) d b =
               Some (Inl (FileNotFoundError (join_path fs base ref_path)))"
    if "reaches_first fs b d base ref_path" for b d
  proof -
    from reaches_first_resolves(1)[OF assms that]
    have "spec_resolves fs b d (Inl (FileNotFoundError (join_path fs base ref_path)))" .
    then obtain n where n: "resolve_refs fs n d b =
        Some (Inl (FileNotFoundError (join_path fs base ref_path)))"
      by (auto dest: resolve_complete(1))
    have "resolve_refs fs (n + more) d b =
        Some (Inl (FileNotFoundError (join_path fs base ref_path)))" for more
      by (rule resolve_mono(1)[OF n]) simp
    then show ?thesis by blast
  qed
  show ?thesis
  proof (intro conjI allI impI)
    fix kvs fuel
    assume "map_of kvs ''$ref'' = Some (JStr ref_path) \<and> is_relative ref_path"
    with assms show "resolve_refs fs fuel (JObj kvs) base =
        Some (Inl (FileNotFoundError (join_path fs base ref_path)))"
      by (simp add: resolve_missing)
  next
    fix fuel data
    assume "reaches fs current_base obj base ref_path"
    then show "resolve_refs fs fuel obj current_base \<noteq> Some (Inr data)"
      using assms by (rule reaches_missing_no_result)
  next
    assume "reaches_first fs current_base obj base ref_path"
    then show "\<exists>fuel. \<forall>more. resolve_refs fs (fuel + more) obj current_base =
               Some (Inl (FileNotFoundError (join_path fs base ref_path)))"
      by (rule first)
  next
    fix file_path
    assume a: "files fs file_path = Some (Document obj) \<and>
            reaches_first fs (parent_dir fs file_path) obj base ref_path"
    with first[of "parent_dir fs file_path" obj]
    show "\<exists>fuel. \<forall>more. load_json_with_refs fs (fuel + more) file_path =
               Some (Inl (FileNotFoundError (join_path fs base ref_path)))"
      by (simp add: load_json_with_refs_def)
  next
    fix fuel q
    assume "resolve_refs fs fuel obj current_base = Some (Inl (FileNotFoundError q))"
    then have "spec_resolves fs current_base obj (Inl (FileNotFoundError q))"
      by (rule resolve_sound(1))
    from resolves_not_found(1)[OF this refl] obtain b' s where
      a: "reaches_first fs current_base obj b' s" "q = join_path fs b' s" "files fs q = None"
      by blast
    from a(3) show "files fs q = None" .
    from a(1,2) show "\<exists>base' ref_path'. reaches_first fs current_base obj base' ref_path' \<and>
               q = join_path fs base' ref_path'" by blast
  qed
qed

lemma preempted_reaches:
  "reaches preempted_fs ''proj'' preempted_doc ''proj'' ''./missing.json''"
proof -
  let ?subs = "JArr [JObj [(''$ref'', JStr ''./bad.json'')], JObj [(''$ref'', JStr ''./missing.json'')]]"
  have "reaches preempted_fs ''proj'' (JObj [(''$ref'', JStr ''./missing.json'')]) ''proj'' ''./missing.json''"
    by (rule reaches.node) (simp_all add: is_relative_def)
  then have "reaches preempted_fs ''proj'' ?subs ''proj'' ''./missing.json''"
    by (rule reaches.elem[rotated]) simp
  then show ?thesis
    unfolding preempted_doc_def mk_module_def
    by (rule reaches.item[rotated 2]) simp_all
qed

text \<open>
  C6 as stated fails, in two ways. The first root document holds a relative reference to a
  file that does not exist, next to the \<^verbatim>\<open>$ref\<close> of its own node, and resolution returns the
  target of that node without any failure. In the second the resolver would reach such a
  reference, but the file of the reference before it does not parse: resolution fails with
  \<^verbatim>\<open>JSONDecodeError\<close>, not with \<^verbatim>\<open>FileNotFoundError\<close>.
\<close>

theorem resolve_refs_missing_target_counterexample:
  "''./missing.json'' \<in> set (rel_refs dropped_doc) \<and>
   files dropped_fs (join_path dropped_fs (parent_dir dropped_fs ''proj/root.json'') ''./missing.json'') = None \<and>
   load_json_with_refs dropped_fs 1 ''proj/root.json'' = Some (Inr (mk_module ''alu'' [])) \<and>
   reaches preempted_fs (parent_dir preempted_fs ''proj/root.json'') preempted_doc ''proj'' ''./missing.json'' \<and>
   files preempted_fs (join_path preempted_fs ''proj'' ''./missing.json'') = None \<and>
   load_json_with_refs preempted_fs 0 ''proj/root.json'' = Some (Inl (JSONDecodeError ''proj/bad.json''))"
proof -
  have a: "''./missing.json'' \<in> set (rel_refs dropped_doc) \<and>
   files dropped_fs (join_path dropped_fs (parent_dir dropped_fs ''proj/root.json'') ''./missing.json'') = None \<and>
   load_json_with_refs dropped_fs 1 ''proj/root.json'' = Some (Inr (mk_module ''alu'' []))"
    by (simp add: dropped_doc_def dropped_fs_def string_fs_def mk_module_def is_relative_def
      posix_join_def posix_parent_def load_json_with_refs_def resolve_refs.simps Let_def)
  have p: "parent_dir preempted_fs ''proj/root.json'' = ''proj''"
    by (simp add: preempted_fs_def string_fs_def posix_parent_def)
  have b: "files preempted_fs (join_path preempted_fs ''proj'' ''./missing.json'') = None \<and>
   load_json_with_refs preempted_fs 0 ''proj/root.json'' = Some (Inl (JSONDecodeError ''proj/bad.json''))"
    by (simp add: preempted_doc_def preempted_fs_def string_fs_def mk_module_def is_relative_def
      posix_join_def posix_parent_def load_json_with_refs_def resolve_refs.simps Let_def)
  from a b preempted_reaches p show ?thesis by simp
qed

lemma cut_chain_reaches_first:
  "reaches_first cut_chain_fs ''proj'' cut_chain_doc ''proj/alu'' ''./adder.json''"
proof -
  let ?ref = "[(''$ref'', JStr ''./adder.json'')]"
  let ?alu = "mk_module ''alu'' [(''submodules'', JObj ?ref)]"
  have j: "join_path cut_chain_fs ''proj'' ''./alu/alu.json'' = ''proj/alu/alu.json''"
    "parent_dir cut_chain_fs ''proj/alu/alu.json'' = ''proj/alu''"
    "files cut_chain_fs ''proj/alu/alu.json'' = Some (Document ?alu)"
    by (simp_all add: cut_chain_fs_def string_fs_def posix_join_def posix_parent_def)
  have "reaches_first cut_chain_fs ''proj/alu'' (JObj ?ref) ''proj/alu'' ''./adder.json''"
    by (rule reaches_first_reaches_first_items_reaches_first_elems.first_node)
       (simp_all add: is_relative_def)
  then have "reaches_first_items cut_chain_fs ''proj/alu'' [(''submodules'', JObj ?ref)]
      ''proj/alu'' ''./adder.json''"
    by (rule reaches_first_reaches_first_items_reaches_first_elems.first_item)
  then have "reaches_first_items cut_chain_fs ''proj/alu''
      [(''name'', JStr ''alu''), (''filepath'', JStr ''alu.v''), (''docpath'', JStr ''alu.md''),
       (''submodules'', JObj ?ref)] ''proj/alu'' ''./adder.json''"
    by (simp add: reaches_first_skip_str)
  then have "reaches_first cut_chain_fs ''proj/alu'' ?alu ''proj/alu'' ''./adder.json''"
    unfolding mk_module_def
    by (intro reaches_first_reaches_first_items_reaches_first_elems.first_mapping) simp_all
  with j have "reaches_first cut_chain_fs ''proj'' (JObj [(''$ref'', JStr ''./alu/alu.json'')])
      ''proj/alu'' ''./adder.json''"
    by (intro reaches_first_reaches_first_items_reaches_first_elems.first_through[where
          ref_path = "''./alu/alu.json''" and ref_data = ?alu])
       (simp_all add: is_relative_def)
  then have "reaches_first cut_chain_fs ''proj'' (JArr [JObj [(''$ref'', JStr ''./alu/alu.json'')]])
      ''proj/alu'' ''./adder.json''"
    by (intro reaches_first_reaches_first_items_reaches_first_elems.first_sequence
        reaches_first_reaches_first_items_reaches_first_elems.first_elem)
  then have "reaches_first_items cut_chain_fs ''proj''
      [(''submodules'', JArr [JObj [(''$ref'', JStr ''./alu/alu.json'')]])] ''proj/alu'' ''./adder.json''"
    by (rule reaches_first_reaches_first_items_reaches_first_elems.first_item)
  then have "reaches_first_items cut_chain_fs ''proj''
      [(''name'', JStr ''cpu''), (''filepath'', JStr ''cpu.v''), (''docpath'', JStr ''cpu.md''),
       (''submodules'', JArr [JObj [(''$ref'', JStr ''./alu/alu.json'')]])] ''proj/alu'' ''./adder.json''"
    by (simp add: reaches_first_skip_str)
  then show ?thesis
    unfolding cut_chain_doc_def mk_module_def
    by (intro reaches_first_reaches_first_items_reaches_first_elems.first_mapping) simp_all
qed

theorem resolve_refs_missing_target_witness:
  "files cut_chain_fs (join_path cut_chain_fs ''proj/alu'' ''./adder.json'') = None \<and>
   reaches cut_chain_fs ''proj'' cut_chain_doc ''proj/alu'' ''./adder.json'' \<and>
   reaches_first cut_chain_fs ''proj'' cut_chain_doc ''proj/alu'' ''./adder.json'' \<and>
   files cut_chain_fs ''proj/root.json'' = Some (Document cut_chain_doc) \<and>
   \<not> (\<exists>fuel data. resolve_refs cut_chain_fs fuel cut_chain_doc ''proj'' = Some (Inr data)) \<and>
   (\<exists>fuel. \<forall>more. load_json_with_refs cut_chain_fs (fuel + more) ''proj/root.json'' =
      Some (Inl (FileNotFoundError ''proj/alu/adder.json''))) \<and>
   load_json_with_refs cut_chain_fs 1 ''proj/root.json'' =
      Some (Inl (FileNotFoundError ''proj/alu/adder.json''))"
proof -
  have m: "files cut_chain_fs (join_path cut_chain_fs ''proj/alu'' ''./adder.json'') = None"
    by (simp add: cut_chain_fs_def string_fs_def posix_join_def)
  have j: "join_path cut_chain_fs ''proj/alu'' ''./adder.json'' = ''proj/alu/adder.json''"
    by (simp add: cut_chain_fs_def string_fs_def posix_join_def)
  have p: "parent_dir cut_chain_fs ''proj/root.json'' = ''proj''"
    by (simp add: cut_chain_fs_def string_fs_def posix_parent_def)
  have f: "files cut_chain_fs ''proj/root.json'' = Some (Document cut_chain_doc)"
    by (simp add: cut_chain_fs_def string_fs_def)
  note rf = cut_chain_reaches_first
  from rf have r: "reaches cut_chain_fs ''proj'' cut_chain_doc ''proj/alu'' ''./adder.json''"
    by (rule reaches_first_reaches(1))
  note t = resolve_refs_missing_target [OF m, where current_base = "''proj''" and obj = cut_chain_doc]
  from t[THEN conjunct2, THEN conjunct1, rule_format, OF r]
  have a: "\<not> (\<exists>fuel data. resolve_refs cut_chain_fs fuel cut_chain_doc ''proj'' = Some (Inr data))"
    by blast
  from rf p have "files cut_chain_fs ''proj/root.json'' = Some (Document cut_chain_doc) \<and>
      reaches_first cut_chain_fs (parent_dir cut_chain_fs ''proj/root.json'') cut_chain_doc
        ''proj/alu'' ''./adder.json''" using f by simp
  from t[THEN conjunct2, THEN conjunct2, THEN conjunct2, THEN conjunct1, rule_format, OF this] j
  have b: "\<exists>fuel. \<forall>more. load_json_with_refs cut_chain_fs (fuel + more) ''proj/root.json'' =
      Some (Inl (FileNotFoundError ''proj/alu/adder.json''))" by simp
  have c: "load_json_with_refs cut_chain_fs 1 ''proj/root.json'' =
      Some (Inl (FileNotFoundError ''proj/alu/adder.json''))"
    by (simp add: load_json_with_refs_def cut_chain_fs_def cut_chain_doc_def string_fs_def
        mk_module_def is_relative_def posix_join_def posix_parent_def resolve_refs.simps Let_def)
  show ?thesis by (intro conjI m r rf f a b c)
qed

section \<open>Properties of the validator adapter\<close>

lemma handlers_catch:
  "\<exists>v. try_except (Inl e) [on_file_not_found, on_json_decode json_path, on_validation, on_exception]
          = Inr v \<and> closed_outcome v"
  by (cases e)
     (simp_all add: on_file_not_found_def on_json_decode_def on_validation_def on_exception_def
        closed_outcome_def starts_with_def)

lemma body_success:
  "validate_body json_load load_refs engine schema_path json_path resolve_first = Inr v
   \<Longrightarrow> v = (True, None)"
  by (auto simp: validate_body_def split: sum.splits if_splits)

text \<open>
  C8. Whatever the file primitives, the resolver and the validation engine return or
  raise, \<open>validate_json\<close> returns (it never propagates an exception), and what it returns is
  success, or a failure whose message is of one of the four kinds: file not found,
  invalid JSON, validation error, unexpected error.
\<close>

theorem validate_json_never_raises:
  "\<exists>v. validate_json json_load load_refs engine schema_path json_path resolve_first = Inr v \<and>
        closed_outcome v"
proof (cases "validate_body json_load load_refs engine schema_path json_path resolve_first")
  case (Inl e)
  with handlers_catch[of e json_path] show ?thesis by (simp add: validate_json_def)
next
  case (Inr v)
  with body_success[OF Inr] show ?thesis by (simp add: validate_json_def closed_outcome_def)
qed

theorem validate_json_never_raises_witness:
  "\<exists>v. validate_json denied_load overflowing_load no_engine ''schema.json'' ''cpu.json'' True = Inr v \<and>
        closed_outcome v \<and>
        v = (False, Some ''Unexpected error: maximum recursion depth exceeded'')"
proof -
  from validate_json_never_raises [of denied_load overflowing_load no_engine "''schema.json''"
      "''cpu.json''" True]
  obtain v where v: "validate_json denied_load overflowing_load no_engine ''schema.json''
      ''cpu.json'' True = Inr v" "closed_outcome v" by (elim exE conjE)
  have "validate_json denied_load overflowing_load no_engine ''schema.json'' ''cpu.json'' True =
      Inr (False, Some ''Unexpected error: maximum recursion depth exceeded'')"
    by (simp add: validate_json_def validate_body_def denied_load_def overflowing_load_def
        on_file_not_found_def on_json_decode_def on_validation_def on_exception_def)
  with v show ?thesis by simp
qed

end
